theory Spec2Isabelle
  imports Main
begin

section \<open>JavaScript values\<close>

text \<open>
  The data that \<open>src/index.js\<close> handles is JSON data coming from the content API and
  from the store, plus \<open>undefined\<close>.  An object is the list of its own properties in
  enumeration order; an array carries its elements and, since a JavaScript array is an
  object, the named properties a caller may have attached to it (\<open>details.search\<close> in
  \<open>get\<close>).  Numbers are the integer-valued ones, of a size that \<open>ToString\<close> renders as a
  decimal numeral.  Inherited properties are not part of a value: the names used as
  dynamic keys (locale, identifier field) are taken not to be names of members of the
  built-in prototypes.  An object that the code builds lists its properties in the order
  of their creation; that integer-like names come first in JavaScript is not modelled, and
  nothing below depends on that order.
\<close>

datatype jsval =
    JUndefined
  | JNull
  | JBool bool
  | JNum int
  | JStr string
  | JArr "jsval list" "(string \<times> jsval) list"
  | JObj "(string \<times> jsval) list"

datatype exn =
    TypeError
  | SyntaxError
  | Rejected string
  | Error string
  | Wrapped exn

text \<open>ToBoolean.\<close>

fun truthy :: "jsval \<Rightarrow> bool" where
  "truthy JUndefined = False"
| "truthy JNull = False"
| "truthy (JBool b) = b"
| "truthy (JNum n) = (n \<noteq> 0)"
| "truthy (JStr s) = (s \<noteq> [])"
| "truthy (JArr xs ps) = True"
| "truthy (JObj ps) = True"

text \<open>\<open>v instanceof Array\<close>, \<open>v instanceof Object\<close>, and the two \<open>typeof\<close> tests of the source.\<close>

fun is_array :: "jsval \<Rightarrow> bool" where
  "is_array (JArr xs ps) = True"
| "is_array v = False"

fun is_object :: "jsval \<Rightarrow> bool" where
  "is_object (JArr xs ps) = True"
| "is_object (JObj ps) = True"
| "is_object v = False"

fun is_string :: "jsval \<Rightarrow> bool" where
  "is_string (JStr s) = True"
| "is_string v = False"

fun is_number :: "jsval \<Rightarrow> bool" where
  "is_number (JNum n) = True"
| "is_number v = False"

fun elems :: "jsval \<Rightarrow> jsval list" where
  "elems (JArr xs ps) = xs"
| "elems v = []"

text \<open>Decimal rendering of an array index and of a number.\<close>

fun show_nat :: "nat \<Rightarrow> string" where
  "show_nat n =
     (if n < 10 then [char_of (48 + n)]
      else show_nat (n div 10) @ [char_of (48 + n mod 10)])"

fun join :: "string \<Rightarrow> string list \<Rightarrow> string" where
  "join sep [] = []"
| "join sep [s] = s"
| "join sep (s # t # ss) = s @ sep @ join sep (t # ss)"

declare show_nat.simps [simp del]

text \<open>ToString, as a template literal applies it.\<close>

fun to_string :: "jsval \<Rightarrow> string" where
  "to_string JUndefined = ''undefined''"
| "to_string JNull = ''null''"
| "to_string (JBool b) = (if b then ''true'' else ''false'')"
| "to_string (JNum n) =
     (if n < 0 then CHR ''-'' # show_nat (nat (- n)) else show_nat (nat n))"
| "to_string (JStr s) = s"
| "to_string (JArr xs ps) =
     join '','' (map (\<lambda>x. if x = JUndefined \<or> x = JNull then [] else to_string x) xs)"
| "to_string (JObj ps) = ''[object Object]''"

text \<open>
  The own enumerable properties of a value, in the order of \<open>Object.keys\<close>: the indices
  of an array or of a string come first.
\<close>

fun own_props :: "jsval \<Rightarrow> (string \<times> jsval) list" where
  "own_props (JObj ps) = ps"
| "own_props (JArr xs ps) = zip (map show_nat [0..<length xs]) xs @ ps"
| "own_props (JStr s) = zip (map show_nat [0..<length s]) (map (\<lambda>c. JStr [c]) s)"
| "own_props v = []"

definition object_keys :: "jsval \<Rightarrow> string list" where
  "object_keys v = map fst (own_props v)"

text \<open>
  Reading a property of a value that is neither \<open>undefined\<close> nor \<open>null\<close>: \<open>length\<close> of
  an array or a string, an own property, or \<open>undefined\<close>.
\<close>

definition lookup :: "(string \<times> jsval) list \<Rightarrow> string \<Rightarrow> jsval" where
  "lookup ps k = (case map_of ps k of Some x \<Rightarrow> x | None \<Rightarrow> JUndefined)"

fun js_prop :: "jsval \<Rightarrow> string \<Rightarrow> jsval" where
  "js_prop (JArr xs ps) k =
     (if k = ''length'' then JNum (int (length xs)) else lookup (own_props (JArr xs ps)) k)"
| "js_prop (JStr s) k =
     (if k = ''length'' then JNum (int (length s)) else lookup (own_props (JStr s)) k)"
| "js_prop v k = lookup (own_props v) k"

text \<open>Reading a property throws a TypeError on \<open>undefined\<close> and \<open>null\<close>.\<close>

definition get_prop :: "jsval \<Rightarrow> string \<Rightarrow> exn + jsval" where
  "get_prop v k = (if v = JUndefined \<or> v = JNull then Inl TypeError else Inr (js_prop v k))"

text \<open>\<open>obj[k] = v\<close> on an object under construction: overwrite in place, or append.\<close>

fun obj_put :: "string \<Rightarrow> jsval \<Rightarrow> (string \<times> jsval) list \<Rightarrow> (string \<times> jsval) list" where
  "obj_put k v [] = [(k, v)]"
| "obj_put k v ((k', v') # ps) = (if k = k' then (k, v) # ps else (k', v') # obj_put k v ps)"

fun obj_put_all :: "(string \<times> jsval) list \<Rightarrow> (string \<times> jsval) list \<Rightarrow> (string \<times> jsval) list" where
  "obj_put_all [] acc = acc"
| "obj_put_all ((k, v) # ps) acc = obj_put_all ps (obj_put k v acc)"

text \<open>Collecting results of a callback that may throw: the first throw wins.\<close>

fun sequence_err :: "(exn + 'a) list \<Rightarrow> exn + 'a list" where
  "sequence_err [] = Inr []"
| "sequence_err (r # rs) =
     (case r of
        Inl e \<Rightarrow> Inl e
      | Inr x \<Rightarrow> (case sequence_err rs of Inl e \<Rightarrow> Inl e | Inr xs \<Rightarrow> Inr (x # xs)))"

section \<open>Flattening an entry (extract)\<close>

lemma size_map_of: "map_of ps k = Some x \<Longrightarrow> size x < size (JObj ps)"
  by (induction ps) (auto split: if_splits)

lemma size_elem: "x \<in> set xs \<Longrightarrow> size (x::jsval) < Suc (size_list size xs + n)"
  by (induction xs) auto

lemma size_in_set: "x \<in> set xs \<Longrightarrow> size x < size (JArr xs ps)"
  by (simp add: size_elem)

lemma size_own_props: "map_of (own_props v) k = Some x \<Longrightarrow> is_object x \<Longrightarrow> size x < size v"
proof (cases v)
  case (JArr xs ps)
  assume m: "map_of (own_props v) k = Some x"
  show ?thesis
  proof (cases "map_of (zip (map show_nat [0..<length xs]) xs) k")
    case None
    with m JArr have "map_of ps k = Some x" by (simp add: map_add_def)
    from size_map_of [OF this] JArr show ?thesis by simp
  next
    case (Some y)
    with m JArr have "y = x" by (simp add: map_add_def)
    with Some have "x \<in> set xs" by (auto dest!: map_of_SomeD set_zip_rightD)
    from size_in_set [OF this, of ps] JArr show ?thesis by simp
  qed
next
  case (JObj ps)
  assume "map_of (own_props v) k = Some x"
  with JObj have "map_of ps k = Some x" by simp
  from size_map_of [OF this] JObj show ?thesis by simp
next
  case (JStr s)
  assume "map_of (own_props v) k = Some x" "is_object x"
  with JStr have "x \<in> set (map (\<lambda>c. JStr [c]) s)" by (auto dest!: map_of_SomeD set_zip_rightD)
  with \<open>is_object x\<close> show ?thesis by auto
qed simp_all

lemma size_lookup_object:
  "is_object (lookup (own_props v) k) \<Longrightarrow> size (lookup (own_props v) k) < size v"
  by (cases "map_of (own_props v) k") (simp_all add: lookup_def size_own_props)

lemma size_prop_object: "is_object (js_prop v k) \<Longrightarrow> size (js_prop v k) < size v"
proof (cases v)
  case (JArr xs ps)
  assume "is_object (js_prop v k)"
  with JArr size_lookup_object [of v k] show ?thesis by (simp split: if_splits)
next
  case (JStr s)
  assume "is_object (js_prop v k)"
  with JStr size_lookup_object [of v k] show ?thesis by (simp split: if_splits)
qed (use size_lookup_object [of v k] in simp_all)

lemma size_prop_le: "size (js_prop v k) \<le> size v"
proof (cases "is_object (js_prop v k)")
  case True
  then show ?thesis using size_prop_object [of v k] by simp
next
  case False
  then show ?thesis by (cases "js_prop v k") simp_all
qed

text \<open>
  The value \<open>fields[fieldKey] && fields[fieldKey][locale]\<close> of lines 17, 22-23 and 29,
  for \<open>f = fields[fieldKey]\<close>.
\<close>

definition localized :: "jsval \<Rightarrow> string \<Rightarrow> jsval" where
  "localized f locale = (if truthy f then js_prop f locale else f)"

text \<open>
  Lines 36-38: the spread of
  \<open>sys.contentType && sys.contentType.sys && sys.contentType.sys.id && {type: ...}\<close>.
\<close>

definition type_part :: "jsval \<Rightarrow> (string \<times> jsval) list" where
  "type_part sys =
     (let ct = js_prop sys ''contentType'' in
      if truthy ct \<and> truthy (js_prop ct ''sys'') \<and> truthy (js_prop (js_prop ct ''sys'') ''id'')
      then [(''type'', js_prop (js_prop ct ''sys'') ''id'')]
      else [])"

function extract_entry :: "jsval \<Rightarrow> string \<Rightarrow> exn + jsval" where
  "extract_entry data locale =
     (if truthy data \<and> truthy (js_prop data ''fields'') then
        (let fields = js_prop data ''fields'' in
         case sequence_err
                (map (\<lambda>fieldKey.
                        if truthy (js_prop fields fieldKey)
                           \<and> is_array (js_prop (js_prop fields fieldKey) locale) then
                          (case sequence_err
                                  (map (\<lambda>innerData. extract_entry innerData locale)
                                       (elems (js_prop (js_prop fields fieldKey) locale))) of
                             Inl e \<Rightarrow> Inl e
                           | Inr ys \<Rightarrow> Inr (fieldKey, JArr ys []))
                        else if truthy (js_prop fields fieldKey)
                           \<and> is_object (js_prop (js_prop fields fieldKey) locale)
                           \<and> truthy (js_prop (js_prop (js_prop fields fieldKey) locale) ''fields'') then
                          (case extract_entry (js_prop (js_prop fields fieldKey) locale) locale of
                             Inl e \<Rightarrow> Inl e
                           | Inr y \<Rightarrow> Inr (fieldKey, y))
                        else
                          Inr (fieldKey,
                               if truthy (localized (js_prop fields fieldKey) locale)
                               then localized (js_prop fields fieldKey) locale
                               else JStr []))
                     (object_keys fields)) of
           Inl e \<Rightarrow> Inl e
         | Inr details \<Rightarrow>
             (case get_prop (js_prop data ''sys'') ''id'' of
                Inl e \<Rightarrow> Inl e
              | Inr i \<Rightarrow>
                  Inr (JObj (obj_put_all details
                         ([(''id'', i)] @ type_part (js_prop data ''sys'')
                          @ [(''createdAt'', js_prop (js_prop data ''sys'') ''createdAt''),
                             (''updatedAt'', js_prop (js_prop data ''sys'') ''updatedAt'')])))))
      else if is_string data \<or> is_number data then Inr data
      else Inr JUndefined)"
  by pat_completeness auto
termination
proof (relation "measure (\<lambda>(data, locale). size data)", goal_cases)
  case 1
  show ?case by simp
next
  case (2 d l f k x)
  have "size x < size (js_prop (js_prop f k) l)"
    using 2(4,5) by (cases "js_prop (js_prop f k) l") (auto simp: size_elem)
  also have "\<dots> \<le> size (js_prop f k)" by (rule size_prop_le)
  also have "\<dots> \<le> size f" by (rule size_prop_le)
  also have "\<dots> \<le> size d" unfolding 2(2) by (rule size_prop_le)
  finally show ?case by simp
next
  case (3 d l f k)
  have "size (js_prop (js_prop f k) l) < size (js_prop f k)"
    using 3(5) by (intro size_prop_object) simp
  also have "\<dots> \<le> size f" by (rule size_prop_le)
  also have "\<dots> \<le> size d" unfolding 3(2) by (rule size_prop_le)
  finally show ?case by simp
qed

declare extract_entry.simps [simp del]

section \<open>Collaborators: the store and the content API\<close>

text \<open>
  Every call the class makes on its two clients is a command.  \<open>SCAN\<close> carries the
  arguments of \<open>rScan\<close> as they are passed; \<open>SET_EX\<close> is \<open>set(key, value, 'EX', expire)\<close>.
\<close>

datatype cmd =
    HGET string string
  | HSET string string jsval
  | CFSYNC jsval
  | FLUSHDB
  | SET string jsval
  | SET_EX string jsval jsval
  | GET jsval
  | DEL jsval
  | SCAN "string list"

text \<open>
  A promise is modelled by the way it settles: rejected with an error or resolved with
  a value.  The two clients together are any function from a command and the state of
  the outside world to a settled reply and the next state.  Commands take effect in the
  order in which they are issued, as on the single connection of the store client.
\<close>

type_synonym reply = "exn + jsval"

type_synonym 'w server = "cmd \<Rightarrow> 'w \<Rightarrow> reply \<times> 'w"

datatype event = Ev cmd reply

text \<open>
  An asynchronous computation: from the state of the world to its completion (a throw
  or a value), the new state, and the commands it issued with their replies.
\<close>

type_synonym ('w, 'a) act = "'w \<Rightarrow> (exn + 'a) \<times> 'w \<times> event list"

definition ret :: "'a \<Rightarrow> ('w, 'a) act" where
  "ret x w = (Inr x, w, [])"

definition throw :: "exn \<Rightarrow> ('w, 'a) act" where
  "throw e w = (Inl e, w, [])"

definition lift :: "exn + 'a \<Rightarrow> ('w, 'a) act" where
  "lift r w = (r, w, [])"

definition bind_act :: "('w, 'a) act \<Rightarrow> ('a \<Rightarrow> ('w, 'b) act) \<Rightarrow> ('w, 'b) act" where
  "bind_act m f w =
     (case m w of
        (Inl e, w1, tr1) \<Rightarrow> (Inl e, w1, tr1)
      | (Inr x, w1, tr1) \<Rightarrow> (case f x w1 of (r, w2, tr2) \<Rightarrow> (r, w2, tr1 @ tr2)))"

text \<open>\<open>await client.cmd(...)\<close>: a rejection is thrown at the \<open>await\<close>.\<close>

definition call :: "'w server \<Rightarrow> cmd \<Rightarrow> ('w, jsval) act" where
  "call srv c w = (case srv c w of (r, w1) \<Rightarrow> (r, w1, [Ev c r]))"

text \<open>\<open>client.cmd(...)\<close> without \<open>await\<close>: the command is issued and its promise kept.\<close>

definition dispatch :: "'w server \<Rightarrow> cmd \<Rightarrow> ('w, reply) act" where
  "dispatch srv c w = (case srv c w of (r, w1) \<Rightarrow> (Inr r, w1, [Ev c r]))"

text \<open>\<open>forEach\<close>, \<open>map\<close> and \<open>for ... of\<close> with a body that has effects and may throw.\<close>

fun for_each :: "('a \<Rightarrow> ('w, 'b) act) \<Rightarrow> 'a list \<Rightarrow> ('w, 'b list) act" where
  "for_each f [] = ret []"
| "for_each f (x # xs) =
     bind_act (f x) (\<lambda>y. bind_act (for_each f xs) (\<lambda>ys. ret (y # ys)))"

section \<open>The class RedisContentful\<close>

text \<open>
  The fields of \<open>this\<close> that the methods read.  An identifier that is not configured is
  \<open>undefined\<close>, which as a property key is the string \<open>undefined\<close>.  \<open>JSON.stringify\<close>
  and \<open>JSON.parse\<close> are parameters of the methods that use them.
\<close>

record config =
  cf_locale :: string
  cf_identifier :: string
  contentTypes :: "string list"

subsection \<open>sync\<close>

text \<open>Lines 82-101: the mode, the fetch, and the wipe of an initial sync.\<close>

definition sync_fetch :: "'w server \<Rightarrow> jsval \<Rightarrow> ('w, jsval) act" where
  "sync_fetch srv shouldReset =
     bind_act
       (if truthy shouldReset then ret (True, JUndefined)
        else bind_act (call srv (HGET ''redis-contentful'' ''nextSyncToken''))
               (\<lambda>nextSyncToken. ret (\<not> truthy nextSyncToken, nextSyncToken)))
       (\<lambda>(isInitial, nextSyncToken).
          bind_act
            (call srv (CFSYNC (if isInitial then JObj [(''initial'', JBool True)]
                               else JObj [(''nextSyncToken'', nextSyncToken)])))
            (\<lambda>response.
               if isInitial then bind_act (call srv FLUSHDB) (\<lambda>_. ret response)
               else ret response))"

text \<open>\<open>entry.sys.contentType.sys.id\<close> (lines 108 and 114).\<close>

definition entry_type_id :: "jsval \<Rightarrow> exn + jsval" where
  "entry_type_id entry =
     (case get_prop entry ''sys'' of
        Inl e \<Rightarrow> Inl e
      | Inr sys \<Rightarrow>
          (case get_prop sys ''contentType'' of
             Inl e \<Rightarrow> Inl e
           | Inr ct \<Rightarrow>
               (case get_prop ct ''sys'' of
                  Inl e \<Rightarrow> Inl e
                | Inr s \<Rightarrow> get_prop s ''id'')))"

text \<open>Lines 105-110: the entries that pass the allow-list.\<close>

fun filter_err :: "('a \<Rightarrow> exn + bool) \<Rightarrow> 'a list \<Rightarrow> exn + 'a list" where
  "filter_err p [] = Inr []"
| "filter_err p (x # xs) =
     (case p x of
        Inl e \<Rightarrow> Inl e
      | Inr b \<Rightarrow>
          (case filter_err p xs of
             Inl e \<Rightarrow> Inl e
           | Inr ys \<Rightarrow> Inr (if b then x # ys else ys)))"

definition allowed :: "config \<Rightarrow> jsval \<Rightarrow> exn + bool" where
  "allowed cfg entry =
     (case entry_type_id entry of
        Inl e \<Rightarrow> Inl e
      | Inr t \<Rightarrow> Inr (case t of JStr n \<Rightarrow> n \<in> set (contentTypes cfg) | _ \<Rightarrow> False))"

definition finalEntries :: "config \<Rightarrow> jsval list \<Rightarrow> exn + jsval list" where
  "finalEntries cfg entries =
     (if contentTypes cfg \<noteq> [] then filter_err (allowed cfg) entries else Inr entries)"

text \<open>
  Lines 118-121: \<open>(entry.fields && entry.fields[identifier] &&
  entry.fields[identifier][locale]) || ''\<close>.
\<close>

definition identifier_value :: "config \<Rightarrow> jsval \<Rightarrow> jsval" where
  "identifier_value cfg entry =
     (let v = (if \<not> truthy (js_prop entry ''fields'') then js_prop entry ''fields''
               else if \<not> truthy (js_prop (js_prop entry ''fields'') (cf_identifier cfg))
               then js_prop (js_prop entry ''fields'') (cf_identifier cfg)
               else js_prop (js_prop (js_prop entry ''fields'') (cf_identifier cfg)) (cf_locale cfg))
      in if truthy v then v else JStr [])"

text \<open>Lines 113-122: the key and the value written for one entry, or the throw.\<close>

definition entry_write :: "config \<Rightarrow> (jsval \<Rightarrow> jsval) \<Rightarrow> jsval \<Rightarrow> exn + string \<times> jsval" where
  "entry_write cfg stringify entry =
     (case entry_type_id entry of
        Inl e \<Rightarrow> Inl e
      | Inr contentType \<Rightarrow>
          (case extract_entry entry (cf_locale cfg) of
             Inl e \<Rightarrow> Inl e
           | Inr extracted \<Rightarrow>
               Inr (to_string contentType @ '':'' @ to_string (identifier_value cfg entry)
                      @ '':'' @ to_string (js_prop (js_prop entry ''sys'') ''id''),
                    stringify extracted)))"

text \<open>Lines 104-126: one \<open>rSet\<close> is issued per entry, its promise pushed.\<close>

definition sync_entries ::
    "config \<Rightarrow> (jsval \<Rightarrow> jsval) \<Rightarrow> 'w server \<Rightarrow> jsval \<Rightarrow> ('w, reply list) act" where
  "sync_entries cfg stringify srv response =
     bind_act (lift (get_prop response ''entries''))
       (\<lambda>entries.
          if truthy entries \<and> truthy (js_prop entries ''length'') then
            (if is_array entries then
               bind_act (lift (finalEntries cfg (elems entries)))
                 (for_each (\<lambda>entry.
                    bind_act (lift (entry_write cfg stringify entry))
                      (\<lambda>(key, val). dispatch srv (SET key val))))
             else throw TypeError)
          else ret [])"

text \<open>Lines 131-139: one deleted entry.\<close>

definition delete_entry :: "'w server \<Rightarrow> jsval \<Rightarrow> ('w, reply list) act" where
  "delete_entry srv entry =
     bind_act (lift (get_prop entry ''sys''))
       (\<lambda>sys.
          bind_act (lift (get_prop sys ''id''))
            (\<lambda>i.
               bind_act (call srv (SCAN [''0'', ''MATCH'', ''*:*:'' @ to_string i]))
                 (\<lambda>responseKey.
                    bind_act (lift (get_prop responseKey ''1''))
                      (\<lambda>matches.
                         if truthy matches
                         then bind_act (dispatch srv (DEL matches)) (\<lambda>p. ret [p])
                         else ret []))))"

text \<open>Lines 129-140.\<close>

definition sync_deleted :: "'w server \<Rightarrow> jsval \<Rightarrow> ('w, reply list) act" where
  "sync_deleted srv response =
     (let deletedEntries = js_prop response ''deletedEntries'' in
      if truthy deletedEntries \<and> truthy (js_prop deletedEntries ''length'') then
        (if is_array deletedEntries then
           bind_act (for_each (delete_entry srv) (elems deletedEntries)) (\<lambda>pss. ret (concat pss))
         else throw TypeError)
      else ret [])"

text \<open>Lines 142-149: the cursor is stored, then the promises are awaited.\<close>

definition sync_finish :: "'w server \<Rightarrow> jsval \<Rightarrow> reply list \<Rightarrow> ('w, jsval) act" where
  "sync_finish srv response promises =
     bind_act (call srv (HSET ''redis-contentful'' ''nextSyncToken''
                           (js_prop response ''nextSyncToken'')))
       (\<lambda>_. bind_act (lift (sequence_err promises))
               (\<lambda>_. ret (JObj [(''message'', JStr ''Sync Complete'')])))"

definition sync_body ::
    "config \<Rightarrow> (jsval \<Rightarrow> jsval) \<Rightarrow> 'w server \<Rightarrow> jsval \<Rightarrow> ('w, jsval) act" where
  "sync_body cfg stringify srv shouldReset =
     bind_act (sync_fetch srv shouldReset)
       (\<lambda>response.
          bind_act (sync_entries cfg stringify srv response)
            (\<lambda>writes.
               bind_act (sync_deleted srv response)
                 (\<lambda>deletes. sync_finish srv response (writes @ deletes))))"

text \<open>Lines 79 and 150-152: whatever is thrown is wrapped in a new \<open>Error\<close>.\<close>

definition sync :: "config \<Rightarrow> (jsval \<Rightarrow> jsval) \<Rightarrow> 'w server \<Rightarrow> jsval \<Rightarrow> ('w, jsval) act" where
  "sync cfg stringify srv shouldReset w =
     (case sync_body cfg stringify srv shouldReset w of
        (Inl e, w1, tr) \<Rightarrow> (Inl (Wrapped e), w1, tr)
      | (Inr v, w1, tr) \<Rightarrow> (Inr v, w1, tr))"

subsection \<open>get\<close>

definition scan_args :: "string \<Rightarrow> string list" where
  "scan_args pattern = [''0'', ''MATCH'', pattern, ''COUNT'', ''10000'']"

text \<open>\<open>`${type || '*'}:${details.search || '*'}:*`\<close> (lines 173, 186 and 196).\<close>

definition or_star :: "jsval \<Rightarrow> string" where
  "or_star v = (if truthy v then to_string v else ''*'')"

definition type_pattern :: "jsval \<Rightarrow> jsval \<Rightarrow> string" where
  "type_pattern t search = or_star t @ '':'' @ or_star search @ '':*''"

text \<open>Lines 160-167 and 183-190: one awaited scan, \<open>keys = response[1] || []\<close>.\<close>

definition scan_one :: "'w server \<Rightarrow> string \<Rightarrow> ('w, jsval) act" where
  "scan_one srv pattern =
     bind_act (call srv (SCAN (scan_args pattern)))
       (\<lambda>response.
          bind_act (lift (get_prop response ''1''))
            (\<lambda>matches. ret (if truthy matches then matches else JArr [] [])))"

text \<open>
  Lines 169-180 and 192-203: every scan is issued, then all are awaited, and
  \<open>Array.prototype.concat\<close> joins the second components (one that is not an array
  becomes a single element).
\<close>

definition concat_item :: "jsval \<Rightarrow> jsval list" where
  "concat_item v = (if is_array v then elems v else [v])"

definition scan_types :: "'w server \<Rightarrow> jsval list \<Rightarrow> jsval \<Rightarrow> ('w, jsval) act" where
  "scan_types srv types search =
     bind_act (for_each (\<lambda>t. dispatch srv (SCAN (scan_args (type_pattern t search)))) types)
       (\<lambda>keyPromises.
          bind_act (lift (sequence_err keyPromises))
            (\<lambda>keyResponses.
               bind_act (lift (sequence_err (map (\<lambda>keyResponse. get_prop keyResponse ''1'')
                                              keyResponses)))
                 (\<lambda>keysArray. ret (JArr (concat (map concat_item keysArray)) []))))"

text \<open>Lines 156-205: the keys for a query.\<close>

definition resolve_keys :: "'w server \<Rightarrow> jsval \<Rightarrow> ('w, jsval) act" where
  "resolve_keys srv details =
     (if is_string details then scan_one srv (to_string details @ '':*:*'')
      else if is_array details then
        scan_types srv (elems details) (js_prop details ''search'')
      else if is_object details then
        (if is_string (js_prop details ''type'') then
           scan_one srv (type_pattern (js_prop details ''type'') (js_prop details ''search''))
         else if is_array (js_prop details ''type'') then
           scan_types srv (elems (js_prop details ''type'')) (js_prop details ''search'')
         else ret (JArr [] []))
      else ret (JArr [] []))"

text \<open>\<open>keys[index].split(':').shift()\<close>.\<close>

definition parseType :: "string \<Rightarrow> string" where
  "parseType key = takeWhile (\<lambda>c. c \<noteq> CHR '':'') key"

text \<open>
  \<open>final\<close> is created by \<open>{}\<close>, so \<open>final[type]\<close> for a name it does not own is what
  \<open>Object.prototype\<close> has under that name: a value that is truthy and has no \<open>push\<close>.
\<close>

definition object_prototype_names :: "string list" where
  "object_prototype_names =
     [''__proto__'', ''constructor'', ''hasOwnProperty'', ''isPrototypeOf'',
      ''propertyIsEnumerable'', ''toLocaleString'', ''toString'', ''valueOf'',
      ''__defineGetter__'', ''__defineSetter__'', ''__lookupGetter__'', ''__lookupSetter__'']"

text \<open>Lines 210-219.  The argument of \<open>push\<close> is evaluated before the call is attempted.\<close>

fun group_loop ::
    "(jsval \<Rightarrow> exn + jsval) \<Rightarrow> (jsval \<times> jsval) list \<Rightarrow> (string \<times> jsval) list
       \<Rightarrow> exn + (string \<times> jsval) list" where
  "group_loop parse [] final = Inr final"
| "group_loop parse ((key, response) # rest) final =
     (case key of
        JStr k \<Rightarrow>
          (case map_of final (parseType k) of
             Some arr \<Rightarrow>
               (case parse response of
                  Inl e \<Rightarrow> Inl e
                | Inr v \<Rightarrow>
                    group_loop parse rest
                      (obj_put (parseType k) (JArr (elems arr @ [v]) []) final))
           | None \<Rightarrow>
               (case parse response of
                  Inl e \<Rightarrow> Inl e
                | Inr v \<Rightarrow>
                    if parseType k \<in> set object_prototype_names then Inl TypeError
                    else group_loop parse rest (obj_put (parseType k) (JArr [v] []) final)))
      | _ \<Rightarrow> Inl TypeError)"

definition get :: "(jsval \<Rightarrow> exn + jsval) \<Rightarrow> 'w server \<Rightarrow> jsval \<Rightarrow> ('w, jsval) act" where
  "get parse srv details =
     bind_act (resolve_keys srv details)
       (\<lambda>keys.
          if \<not> is_array keys then throw TypeError
          else
            bind_act (for_each (\<lambda>key. dispatch srv (GET key)) (elems keys))
              (\<lambda>promises.
                 bind_act (lift (sequence_err promises))
                   (\<lambda>responses.
                      bind_act (lift (group_loop parse (zip (elems keys) responses) []))
                        (\<lambda>final. ret (JObj final)))))"

subsection \<open>setCustom, getCustom, deleteCustom\<close>

text \<open>
  A call either throws, or returns a value.  \<open>setCustom\<close> and \<open>deleteCustom\<close> are plain
  functions that return the promise of the client; \<open>getCustom\<close> is an \<open>async\<close> function,
  so whatever its body throws settles the promise it returns.
\<close>

datatype 'a completion = Throws exn | Returns 'a

definition setCustom ::
    "(jsval \<Rightarrow> jsval) \<Rightarrow> 'w server \<Rightarrow> jsval \<Rightarrow> jsval \<Rightarrow> jsval
       \<Rightarrow> 'w \<Rightarrow> reply completion \<times> 'w \<times> event list" where
  "setCustom stringify srv key val expire w =
     (case key of
        JStr k \<Rightarrow>
          (let c = (if truthy expire then SET_EX k (stringify val) expire
                    else SET k (stringify val))
           in case srv c w of (r, w1) \<Rightarrow> (Returns r, w1, [Ev c r]))
      | _ \<Rightarrow> (Throws (Error ''setCustom - key should be a string''), w, []))"

definition getCustom ::
    "(jsval \<Rightarrow> exn + jsval) \<Rightarrow> 'w server \<Rightarrow> jsval
       \<Rightarrow> 'w \<Rightarrow> reply completion \<times> 'w \<times> event list" where
  "getCustom parse srv key w =
     (case key of
        JStr k \<Rightarrow>
          (case bind_act (call srv (GET (JStr k))) (\<lambda>response. lift (parse response)) w of
             (r, w1, tr) \<Rightarrow> (Returns r, w1, tr))
      | _ \<Rightarrow> (Returns (Inl (Error ''getCustom - key should be a string'')), w, []))"

definition deleteCustom ::
    "'w server \<Rightarrow> jsval \<Rightarrow> 'w \<Rightarrow> reply completion \<times> 'w \<times> event list" where
  "deleteCustom srv key w =
     (case key of
        JStr k \<Rightarrow> (case srv (DEL (JStr k)) w of (r, w1) \<Rightarrow> (Returns r, w1, [Ev (DEL (JStr k)) r]))
      | _ \<Rightarrow> (Throws (Error ''deleteCustom - key should be a string''), w, []))"

section \<open>An in-memory store and a fixed remote delta\<close>

text \<open>
  One instance of the collaborators, for running the methods on concrete data: a store
  that keeps keys and hash fields in lists, answers a scan with every matching key in
  one page, refuses a \<open>DEL\<close> without keys, and rejects writes to the keys listed in
  \<open>refused\<close>; the content API answers every fetch with \<open>remote\<close>.  The matcher knows
  \<open>*\<close> and \<open>?\<close>.
\<close>

record world =
  kv :: "(string \<times> jsval) list"
  hashes :: "((string \<times> string) \<times> jsval) list"
  remote :: jsval
  refused :: "string list"

fun glob :: "string \<Rightarrow> string \<Rightarrow> bool" where
  "glob [] s = (s = [])"
| "glob (p # ps) [] = (p = CHR ''*'' \<and> glob ps [])"
| "glob (p # ps) (c # cs) =
     (if p = CHR ''*'' then glob ps (c # cs) \<or> glob (p # ps) cs
      else (p = CHR ''?'' \<or> p = c) \<and> glob ps cs)"

definition del_names :: "jsval \<Rightarrow> string list" where
  "del_names ks = (case ks of JStr s \<Rightarrow> [s] | JArr xs ps \<Rightarrow> map to_string xs | _ \<Rightarrow> [])"

definition mem_set :: "string \<Rightarrow> jsval \<Rightarrow> world \<Rightarrow> reply \<times> world" where
  "mem_set k v w =
     (if k \<in> set (refused w) then (Inl (Rejected ''write refused''), w)
      else (Inr (JStr ''OK''), w\<lparr>kv := obj_put k v (kv w)\<rparr>))"

fun mem_srv :: "world server" where
  "mem_srv (HGET h f) w =
     (Inr (case map_of (hashes w) (h, f) of Some v \<Rightarrow> v | None \<Rightarrow> JNull), w)"
| "mem_srv (HSET h f v) w = (Inr (JNum 1), w\<lparr>hashes := ((h, f), v) # hashes w\<rparr>)"
| "mem_srv (CFSYNC a) w = (Inr (remote w), w)"
| "mem_srv FLUSHDB w = (Inr (JStr ''OK''), w\<lparr>kv := [], hashes := []\<rparr>)"
| "mem_srv (SET k v) w = mem_set k v w"
| "mem_srv (SET_EX k v x) w = mem_set k v w"
| "mem_srv (GET k) w =
     (case k of
        JStr s \<Rightarrow> (Inr (case map_of (kv w) s of Some v \<Rightarrow> v | None \<Rightarrow> JNull), w)
      | _ \<Rightarrow> (Inl (Rejected ''bad key''), w))"
| "mem_srv (DEL ks) w =
     (if del_names ks = [] then (Inl (Rejected ''wrong number of arguments''), w)
      else (Inr (JNum (int (length (filter (\<lambda>p. fst p \<in> set (del_names ks)) (kv w))))),
            w\<lparr>kv := filter (\<lambda>p. fst p \<notin> set (del_names ks)) (kv w)\<rparr>))"
| "mem_srv (SCAN args) w =
     (case args of
        c # m # pattern # rest \<Rightarrow>
          (Inr (JArr [JStr ''0'', JArr (map JStr (filter (glob pattern) (map fst (kv w)))) []] []), w)
      | _ \<Rightarrow> (Inl (Rejected ''syntax error''), w))"

section \<open>Reading a run\<close>

text \<open>
  A trace lists the commands a call issued, in order, each with its reply.  Read off it:
  the key and value of every \<open>SET\<close>; the arguments of every \<open>SCAN\<close>; the second component
  (\<open>response[1]\<close>) of the reply of every \<open>SCAN\<close> that resolved; the argument of every
  \<open>DEL\<close>; the key of every \<open>GET\<close>.
\<close>

fun ev_cmd :: "event \<Rightarrow> cmd" where
  "ev_cmd (Ev c r) = c"

fun ev_reply :: "event \<Rightarrow> reply" where
  "ev_reply (Ev c r) = r"

definition writes :: "event list \<Rightarrow> (string \<times> jsval) list" where
  "writes tr = concat (map (\<lambda>ev. case ev_cmd ev of SET k v \<Rightarrow> [(k, v)] | _ \<Rightarrow> []) tr)"

definition scans :: "event list \<Rightarrow> string list list" where
  "scans tr = concat (map (\<lambda>ev. case ev_cmd ev of SCAN args \<Rightarrow> [args] | _ \<Rightarrow> []) tr)"

definition pages :: "event list \<Rightarrow> jsval list" where
  "pages tr =
     concat (map (\<lambda>ev. case ev_cmd ev of
                           SCAN args \<Rightarrow> (case ev_reply ev of Inr r \<Rightarrow> [js_prop r ''1''] | Inl e \<Rightarrow> [])
                         | _ \<Rightarrow> []) tr)"

definition deletes :: "event list \<Rightarrow> jsval list" where
  "deletes tr = concat (map (\<lambda>ev. case ev_cmd ev of DEL ks \<Rightarrow> [ks] | _ \<Rightarrow> []) tr)"

definition reads :: "event list \<Rightarrow> jsval list" where
  "reads tr = concat (map (\<lambda>ev. case ev_cmd ev of GET k \<Rightarrow> [k] | _ \<Rightarrow> []) tr)"

text \<open>The commands of the three phases of \<open>sync\<close>: fetching, writing, deleting.\<close>

fun fetch_cmd :: "cmd \<Rightarrow> bool" where
  "fetch_cmd (HGET h f) = True"
| "fetch_cmd (CFSYNC a) = True"
| "fetch_cmd FLUSHDB = True"
| "fetch_cmd c = False"

fun set_cmd :: "cmd \<Rightarrow> bool" where
  "set_cmd (SET k v) = True"
| "set_cmd c = False"

fun scan_del_cmd :: "cmd \<Rightarrow> bool" where
  "scan_del_cmd (SCAN a) = True"
| "scan_del_cmd (DEL ks) = True"
| "scan_del_cmd c = False"

text \<open>The entries that \<open>sync\<close> writes: all of them, or those of an allowed content type.\<close>

definition selected :: "config \<Rightarrow> jsval list \<Rightarrow> jsval list" where
  "selected cfg entries =
     (if contentTypes cfg = [] then entries
      else filter (\<lambda>entry. \<exists>n \<in> set (contentTypes cfg). entry_type_id entry = Inr (JStr n)) entries)"

text \<open>The scan that \<open>sync\<close> issues for a deleted entry.\<close>

definition suffix_scan :: "jsval \<Rightarrow> string list" where
  "suffix_scan entry =
     [''0'', ''MATCH'', ''*:*:'' @ to_string (js_prop (js_prop entry ''sys'') ''id'')]"

text \<open>The promises of the deletes: the replies of the \<open>DEL\<close> commands.\<close>

definition del_replies :: "event list \<Rightarrow> reply list" where
  "del_replies tr = concat (map (\<lambda>ev. case ev_cmd ev of DEL ks \<Rightarrow> [ev_reply ev] | _ \<Rightarrow> []) tr)"

text \<open>
  A scan whose reply has a truthy second component, that component, and the traces in
  which every such scan is followed at once by the delete of that component.
\<close>

definition needs_del :: "event \<Rightarrow> bool" where
  "needs_del ev =
     (case ev_cmd ev of
        SCAN a \<Rightarrow> (case ev_reply ev of Inr r \<Rightarrow> truthy (js_prop r ''1'') | Inl e \<Rightarrow> False)
      | _ \<Rightarrow> False)"

definition page_of :: "event \<Rightarrow> jsval" where
  "page_of ev = (case ev_reply ev of Inr r \<Rightarrow> js_prop r ''1'' | Inl e \<Rightarrow> JUndefined)"

fun paired :: "event list \<Rightarrow> bool" where
  "paired [] = True"
| "paired (ev # tr) =
     ((needs_del ev \<longrightarrow> (case tr of [] \<Rightarrow> False | ev' # rest \<Rightarrow> ev_cmd ev' = DEL (page_of ev)))
      \<and> paired tr)"

text \<open>
  The beginning of a run in each mode.  An initial sync fetches with \<open>{initial: true}\<close>
  and, when the fetch resolves, wipes the store next; an incremental sync fetches with
  the cursor and never wipes.
\<close>

fun initial_run :: "event list \<Rightarrow> bool" where
  "initial_run (Ev (CFSYNC a) r # rest) =
     (a = JObj [(''initial'', JBool True)]
      \<and> (case r of
           Inl e \<Rightarrow> True
         | Inr response \<Rightarrow> (case rest of ev # rest' \<Rightarrow> ev_cmd ev = FLUSHDB | [] \<Rightarrow> False)))"
| "initial_run tr = False"

fun incremental_run :: "jsval \<Rightarrow> event list \<Rightarrow> bool" where
  "incremental_run cursor (Ev (CFSYNC a) r # rest) =
     (a = JObj [(''nextSyncToken'', cursor)] \<and> FLUSHDB \<notin> set (map ev_cmd rest))"
| "incremental_run cursor tr = False"

text \<open>
  The patterns that the specification gives for a query: \<open>{type}:*:*\<close> for a single
  type name; \<open>{type || '*'}:{search || '*'}:*\<close> for each type of a sequence, which may
  carry a \<open>search\<close>; for an object \<open>{type, search}\<close> the same resolution, as its \<open>type\<close>
  is a single name or a sequence; none for anything else.
\<close>

definition query_patterns :: "jsval \<Rightarrow> string list" where
  "query_patterns details =
     (if is_string details then [to_string details @ '':*:*'']
      else if is_array details then
        map (\<lambda>t. or_star t @ '':'' @ or_star (js_prop details ''search'') @ '':*'')
            (elems details)
      else if is_object details then
        (if is_string (js_prop details ''type'') then
           [to_string (js_prop details ''type'') @ '':*:*'']
         else if is_array (js_prop details ''type'') then
           map (\<lambda>t. or_star t @ '':'' @ or_star (js_prop details ''search'') @ '':*'')
               (elems (js_prop details ''type''))
         else [])
      else [])"

text \<open>
  The patterns of the scans that \<open>resolve_keys\<close> issues, branch by branch (lines 159-204).
\<close>

definition scanned_patterns :: "jsval \<Rightarrow> string list" where
  "scanned_patterns details =
     (if is_string details then [to_string details @ '':*:*'']
      else if is_array details then
        map (\<lambda>t. type_pattern t (js_prop details ''search'')) (elems details)
      else if is_object details then
        (if is_string (js_prop details ''type'') then
           [type_pattern (js_prop details ''type'') (js_prop details ''search'')]
         else if is_array (js_prop details ''type'') then
           map (\<lambda>t. type_pattern t (js_prop details ''search''))
               (elems (js_prop details ''type''))
         else [])
      else [])"

text \<open>The keys read with their values: the \<open>rGet\<close> calls on a string key that resolved.\<close>

definition fetched :: "event list \<Rightarrow> (string \<times> jsval) list" where
  "fetched tr =
     concat (map (\<lambda>ev. case ev_cmd ev of
                           GET k \<Rightarrow>
                             (case k of
                                JStr s \<Rightarrow> (case ev_reply ev of Inr r \<Rightarrow> [(s, r)] | Inl e \<Rightarrow> [])
                              | _ \<Rightarrow> [])
                         | _ \<Rightarrow> []) tr)"

text \<open>What \<open>final[type]\<close> is after more values of that type were pushed.\<close>

definition grouped :: "jsval option \<Rightarrow> jsval list \<Rightarrow> jsval option" where
  "grouped old new =
     (if new = [] then old
      else Some (JArr ((case old of None \<Rightarrow> [] | Some a \<Rightarrow> elems a) @ new) []))"

section \<open>Example data\<close>

definition entry_of :: "string \<Rightarrow> string \<Rightarrow> (string \<times> jsval) list \<Rightarrow> jsval" where
  "entry_of i t fs =
     JObj [(''sys'', JObj [(''id'', JStr i),
                           (''contentType'', JObj [(''sys'', JObj [(''id'', JStr t)])])]),
           (''fields'', JObj (map (\<lambda>(k, v). (k, JObj [(''en-US'', v)])) fs))]"

definition draft_post :: jsval where
  "draft_post = entry_of ''E1'' ''post'' [(''title'', JStr ''Hi''), (''published'', JBool False)]"

definition empty_world :: world where
  "empty_world = \<lparr>kv = [], hashes = [], remote = JNull, refused = []\<rparr>"

definition example_cfg :: config where
  "example_cfg = \<lparr>cf_locale = ''en-US'', cf_identifier = ''title'', contentTypes = [''post'']\<rparr>"

definition example_delta :: jsval where
  "example_delta =
     JObj [(''entries'', JArr [entry_of ''E1'' ''post'' [(''title'', JStr ''Hi'')],
                               entry_of ''P1'' ''page'' [(''title'', JStr ''Home'')]] []),
           (''deletedEntries'', JArr [JObj [(''sys'', JObj [(''id'', JStr ''E9'')])],
                                      JObj [(''sys'', JObj [(''id'', JStr ''E8'')])]] []),
           (''nextSyncToken'', JStr ''t1'')]"

definition example_world :: world where
  "example_world =
     \<lparr>kv = [(''post:Old:E9'', JStr ''old'')],
      hashes = [((''redis-contentful'', ''nextSyncToken''), JStr ''t0'')],
      remote = example_delta, refused = []\<rparr>"

definition numbered_cfg :: config where
  "numbered_cfg = \<lparr>cf_locale = ''en-US'', cf_identifier = ''order'', contentTypes = []\<rparr>"

definition numbered_post :: jsval where
  "numbered_post = entry_of ''E1'' ''post'' [(''order'', JNum 0)]"

definition numbered_world :: world where
  "numbered_world =
     \<lparr>kv = [], hashes = [],
      remote = JObj [(''entries'', JArr [numbered_post] []), (''nextSyncToken'', JStr ''t1'')],
      refused = []\<rparr>"

definition post_flat :: jsval where
  "post_flat = JObj [(''id'', JStr ''E1''), (''type'', JStr ''post''),
                     (''createdAt'', JUndefined), (''updatedAt'', JUndefined),
                     (''title'', JStr ''Hi'')]"

definition example_trace :: "event list" where
  "example_trace =
     [Ev (HGET ''redis-contentful'' ''nextSyncToken'') (Inr (JStr ''t0'')),
      Ev (CFSYNC (JObj [(''nextSyncToken'', JStr ''t0'')])) (Inr example_delta),
      Ev (SET ''post:Hi:E1'' post_flat) (Inr (JStr ''OK'')),
      Ev (SCAN [''0'', ''MATCH'', ''*:*:E9''])
         (Inr (JArr [JStr ''0'', JArr [JStr ''post:Old:E9''] []] [])),
      Ev (DEL (JArr [JStr ''post:Old:E9''] [])) (Inr (JNum 1)),
      Ev (SCAN [''0'', ''MATCH'', ''*:*:E8'']) (Inr (JArr [JStr ''0'', JArr [] []] [])),
      Ev (DEL (JArr [] [])) (Inl (Rejected ''wrong number of arguments'')),
      Ev (HSET ''redis-contentful'' ''nextSyncToken'' (JStr ''t1'')) (Inr (JNum 1))]"

definition example_world_after :: world where
  "example_world_after =
     \<lparr>kv = [(''post:Hi:E1'', post_flat)],
      hashes = [((''redis-contentful'', ''nextSyncToken''), JStr ''t1''),
                ((''redis-contentful'', ''nextSyncToken''), JStr ''t0'')],
      remote = example_delta, refused = []\<rparr>"

definition numbered_flat :: jsval where
  "numbered_flat = JObj [(''id'', JStr ''E1''), (''type'', JStr ''post''),
                         (''createdAt'', JUndefined), (''updatedAt'', JUndefined),
                         (''order'', JStr [])]"

definition numbered_trace :: "event list" where
  "numbered_trace =
     [Ev (CFSYNC (JObj [(''initial'', JBool True)])) (Inr (remote numbered_world)),
      Ev FLUSHDB (Inr (JStr ''OK'')),
      Ev (SET ''post::E1'' numbered_flat) (Inr (JStr ''OK'')),
      Ev (HSET ''redis-contentful'' ''nextSyncToken'' (JStr ''t1'')) (Inr (JNum 1))]"

definition open_cfg :: config where
  "open_cfg = \<lparr>cf_locale = ''en-US'', cf_identifier = ''title'', contentTypes = []\<rparr>"

definition library_delta :: jsval where
  "library_delta =
     JObj [(''entries'', JArr [entry_of ''E1'' ''post'' [(''title'', JStr ''Hi'')],
                               entry_of ''E2'' ''post'' [(''title'', JStr ''Yo'')],
                               entry_of ''A1'' ''author'' [(''title'', JStr ''Bob'')]] []),
           (''nextSyncToken'', JStr ''t1'')]"

text \<open>The store after a first sync of three entries: two posts and an author.\<close>

definition stocked_world :: world where
  "stocked_world =
     fst (snd (sync open_cfg (\<lambda>v. v) mem_srv (JBool True)
                 \<lparr>kv = [], hashes = [], remote = library_delta, refused = []\<rparr>))"

definition flat_of :: "string \<Rightarrow> string \<Rightarrow> string \<Rightarrow> jsval" where
  "flat_of i t title =
     JObj [(''id'', JStr i), (''type'', JStr t), (''createdAt'', JUndefined),
           (''updatedAt'', JUndefined), (''title'', JStr title)]"

definition library_query :: jsval where
  "library_query = JArr [JStr ''post'', JStr ''author''] []"

definition filter_query :: jsval where
  "filter_query = JObj [(''type'', JStr ''post''), (''search'', JStr ''Hi'')]"

definition unnamed_query :: jsval where
  "unnamed_query = JObj [(''type'', JStr [])]"

definition library_result :: jsval where
  "library_result =
     JObj [(''post'', JArr [flat_of ''E1'' ''post'' ''Hi'', flat_of ''E2'' ''post'' ''Yo''] []),
           (''author'', JArr [flat_of ''A1'' ''author'' ''Bob''] [])]"

section \<open>Properties\<close>

lemma sequence_err_map_Inr: "sequence_err (map f xs) = Inr ys \<Longrightarrow> map Inr ys = map f xs"
  by (induction xs arbitrary: ys) (auto split: sum.splits)

lemma map_of_obj_put: "map_of (obj_put k v ps) k' = (if k' = k then Some v else map_of ps k')"
  by (induction ps) auto

lemma map_of_obj_put_all:
  "map_of (obj_put_all ds acc) k =
     (case map_of (rev ds) k of Some v \<Rightarrow> Some v | None \<Rightarrow> map_of acc k)"
  by (induction ds arbitrary: acc)
     (auto simp: map_of_obj_put map_add_def split: option.splits)

lemma map_of_unique:
  assumes "(k, v) \<in> set ds" and "\<And>v'. (k, v') \<in> set ds \<Longrightarrow> v' = v"
  shows "map_of (rev ds) k = Some v"
proof (cases "map_of (rev ds) k")
  case None
  with assms(1) show ?thesis by (force simp: map_of_eq_None_iff)
next
  case (Some v')
  then have "(k, v') \<in> set ds" by (auto dest: map_of_SomeD)
  with assms(2) Some show ?thesis by simp
qed


text \<open>
C8, as amended.  For a field key of an entry whose value for the locale
  (\<open>fields[fieldKey] && fields[fieldKey][locale]\<close>) is neither an array nor an object with a
  truthy \<open>fields\<close>, the flattened entry holds that value under the field key when the value
  is truthy, and the empty string otherwise: when the field or its localized value is
  missing, and also when the value is \<open>false\<close>, \<open>0\<close>, \<open>null\<close> or the empty string.
\<close>

theorem extract_scalar_field:
  assumes out: "extract_entry data loc = Inr out"
    and fields: "truthy data" "truthy (js_prop data ''fields'')"
    and key: "fieldKey \<in> set (object_keys (js_prop data ''fields''))"
    and lv: "lv = localized (js_prop (js_prop data ''fields'') fieldKey) loc"
    and scalar: "\<not> is_array lv" "\<not> (is_object lv \<and> truthy (js_prop lv ''fields''))"
  shows "js_prop out fieldKey = (if truthy lv then lv else JStr [])"
proof -
  define fs where "fs = js_prop data ''fields''"
  define F where "F = (\<lambda>fieldKey.
                        if truthy (js_prop fs fieldKey)
                           \<and> is_array (js_prop (js_prop fs fieldKey) loc) then
                          (case sequence_err
                                  (map (\<lambda>innerData. extract_entry innerData loc)
                                       (elems (js_prop (js_prop fs fieldKey) loc))) of
                             Inl e \<Rightarrow> Inl e
                           | Inr ys \<Rightarrow> Inr (fieldKey, JArr ys []))
                        else if truthy (js_prop fs fieldKey)
                           \<and> is_object (js_prop (js_prop fs fieldKey) loc)
                           \<and> truthy (js_prop (js_prop (js_prop fs fieldKey) loc) ''fields'') then
                          (case extract_entry (js_prop (js_prop fs fieldKey) loc) loc of
                             Inl e \<Rightarrow> Inl e
                           | Inr y \<Rightarrow> Inr (fieldKey, y))
                        else
                          Inr (fieldKey,
                               if truthy (localized (js_prop fs fieldKey) loc)
                               then localized (js_prop fs fieldKey) loc
                               else JStr []))"
  have fst_F: "F k = Inr (k', v) \<Longrightarrow> k' = k" for k k' v
    by (auto simp: F_def split: if_splits sum.splits)
  have F_key: "F fieldKey = Inr (fieldKey, if truthy lv then lv else JStr [])"
  proof (cases "truthy (js_prop fs fieldKey)")
    case True
    then have "lv = js_prop (js_prop fs fieldKey) loc" by (simp add: lv fs_def localized_def)
    with True scalar show ?thesis by (auto simp: F_def localized_def)
  next
    case False
    then have "lv = js_prop fs fieldKey" by (simp add: lv fs_def localized_def)
    with False show ?thesis by (auto simp: F_def localized_def)
  qed
  have eq: "extract_entry data loc =
      (case sequence_err (map F (object_keys fs)) of
         Inl e \<Rightarrow> Inl e
       | Inr details \<Rightarrow>
           (case get_prop (js_prop data ''sys'') ''id'' of
              Inl e \<Rightarrow> Inl e
            | Inr i \<Rightarrow>
                Inr (JObj (obj_put_all details
                       ([(''id'', i)] @ type_part (js_prop data ''sys'')
                        @ [(''createdAt'', js_prop (js_prop data ''sys'') ''createdAt''),
                           (''updatedAt'', js_prop (js_prop data ''sys'') ''updatedAt'')])))))"
    unfolding F_def fs_def
    by (subst extract_entry.simps) (simp only: fields Let_def simp_thms if_True)
  from out obtain details base where
    seq: "sequence_err (map F (object_keys fs)) = Inr details"
    and o: "out = JObj (obj_put_all details base)"
    unfolding eq by (auto split: sum.splits)
  from sequence_err_map_Inr [OF seq] have m: "map Inr details = map F (object_keys fs)" .
  then have set_eq: "Inr ` set details = F ` set (object_keys fs)"
    by (metis list.set_map)
  have key': "fieldKey \<in> set (object_keys fs)" using key by (simp only: fs_def)
  have "F fieldKey \<in> Inr ` set details" unfolding set_eq using key' by (rule imageI)
  then have mem: "(fieldKey, if truthy lv then lv else JStr []) \<in> set details"
    unfolding F_key by blast
  have uniq: "v' = (if truthy lv then lv else JStr [])" if "(fieldKey, v') \<in> set details" for v'
  proof -
    from that have "Inr (fieldKey, v') \<in> F ` set (object_keys fs)"
      unfolding set_eq [symmetric] by blast
    then obtain k where "F k = Inr (fieldKey, v')" by force
    with fst_F [of k fieldKey v'] F_key show ?thesis by simp
  qed
  from map_of_unique [OF mem uniq]
  have "map_of (rev details) fieldKey = Some (if truthy lv then lv else JStr [])" by simp
  then show ?thesis unfolding o by (simp add: lookup_def map_of_obj_put_all)
qed


lemma extract_draft_post:
  "extract_entry draft_post ''en-US'' =
     Inr (JObj [(''id'', JStr ''E1''), (''type'', JStr ''post''),
                (''createdAt'', JUndefined), (''updatedAt'', JUndefined),
                (''title'', JStr ''Hi''), (''published'', JStr [])])"
  by code_simp

text \<open>
The field \<open>title\<close> of the example entry: its localized value is the string \<open>Hi\<close>, and
  the flattened entry holds it.
\<close>

theorem extract_scalar_field_witness:
  "js_prop (JObj [(''id'', JStr ''E1''), (''type'', JStr ''post''),
                  (''createdAt'', JUndefined), (''updatedAt'', JUndefined),
                  (''title'', JStr ''Hi''), (''published'', JStr [])]) ''title'' = JStr ''Hi''
   \<and> localized (js_prop (js_prop draft_post ''fields'') ''title'') ''en-US'' = JStr ''Hi''"
proof -
  have lv: "JStr ''Hi'' = localized (js_prop (js_prop draft_post ''fields'') ''title'') ''en-US''"
    by code_simp
  have "js_prop (JObj [(''id'', JStr ''E1''), (''type'', JStr ''post''),
                  (''createdAt'', JUndefined), (''updatedAt'', JUndefined),
                  (''title'', JStr ''Hi''), (''published'', JStr [])]) ''title''
        = (if truthy (JStr ''Hi'') then JStr ''Hi'' else JStr [])"
  proof (rule extract_scalar_field [OF extract_draft_post _ _ _ lv])
    show "truthy draft_post" by code_simp
    show "truthy (js_prop draft_post ''fields'')" by code_simp
    show "''title'' \<in> set (object_keys (js_prop draft_post ''fields''))" by code_simp
    show "\<not> is_array (JStr ''Hi'')" by simp
    show "\<not> (is_object (JStr ''Hi'') \<and> truthy (js_prop (JStr ''Hi'') ''fields''))" by simp
  qed
  with lv [symmetric] show ?thesis by simp
qed


text \<open>
C8 as stated fails: the localized value \<open>false\<close> of the field \<open>published\<close> is present
  and is neither an array nor an object, and the flattened entry holds the empty string.
\<close>

theorem extract_false_field_counterexample:
  "\<not> (\<forall>data loc fieldKey out.
         extract_entry data loc = Inr out
         \<and> fieldKey \<in> set (object_keys (js_prop data ''fields''))
         \<and> js_prop (js_prop (js_prop data ''fields'') fieldKey) loc \<noteq> JUndefined
         \<and> \<not> is_array (js_prop (js_prop (js_prop data ''fields'') fieldKey) loc)
         \<and> \<not> is_object (js_prop (js_prop (js_prop data ''fields'') fieldKey) loc)
         \<longrightarrow> js_prop out fieldKey = js_prop (js_prop (js_prop data ''fields'') fieldKey) loc)"
proof
  assume a: "\<forall>data loc fieldKey out.
         extract_entry data loc = Inr out
         \<and> fieldKey \<in> set (object_keys (js_prop data ''fields''))
         \<and> js_prop (js_prop (js_prop data ''fields'') fieldKey) loc \<noteq> JUndefined
         \<and> \<not> is_array (js_prop (js_prop (js_prop data ''fields'') fieldKey) loc)
         \<and> \<not> is_object (js_prop (js_prop (js_prop data ''fields'') fieldKey) loc)
         \<longrightarrow> js_prop out fieldKey = js_prop (js_prop (js_prop data ''fields'') fieldKey) loc"
  have v: "js_prop (js_prop (js_prop draft_post ''fields'') ''published'') ''en-US'' = JBool False"
    by code_simp
  have k: "''published'' \<in> set (object_keys (js_prop draft_post ''fields''))"
    by code_simp
  from a [rule_format, of draft_post "''en-US''" _ "''published''"] extract_draft_post k v
  have "js_prop (JObj [(''id'', JStr ''E1''), (''type'', JStr ''post''),
                (''createdAt'', JUndefined), (''updatedAt'', JUndefined),
                (''title'', JStr ''Hi''), (''published'', JStr [])]) ''published'' = JBool False"
    by simp
  then show False by (simp add: lookup_def)
qed




text \<open>
C9, as amended.  For a key that is not a string, \<open>setCustom\<close> and \<open>deleteCustom\<close> throw
  their error at the call, and \<open>getCustom\<close>, an \<open>async\<close> function, returns a promise
  rejected with its error; none of the three issues a command or changes the store.  For
  a string key none of them throws: each returns a promise that settles as the store
  client's reply does (for \<open>getCustom\<close>, as \<open>JSON.parse\<close> of the reply does).
\<close>

theorem custom_key_check:
  "(\<not> is_string key \<longrightarrow>
      setCustom stringify srv key val expire w
        = (Throws (Error ''setCustom - key should be a string''), w, [])
      \<and> deleteCustom srv key w
        = (Throws (Error ''deleteCustom - key should be a string''), w, [])
      \<and> getCustom parse srv key w
        = (Returns (Inl (Error ''getCustom - key should be a string'')), w, []))
   \<and> (is_string key \<longrightarrow>
      fst (setCustom stringify srv key val expire w)
        = Returns (fst (srv (if truthy expire then SET_EX (to_string key) (stringify val) expire
                             else SET (to_string key) (stringify val)) w))
      \<and> fst (deleteCustom srv key w) = Returns (fst (srv (DEL key) w))
      \<and> fst (getCustom parse srv key w)
        = Returns (case fst (srv (GET key) w) of Inl e \<Rightarrow> Inl e | Inr response \<Rightarrow> parse response))"
proof (cases key)
  case (JStr k)
  then show ?thesis
    by (simp add: setCustom_def deleteCustom_def getCustom_def bind_act_def call_def lift_def
                  Let_def split: prod.splits sum.splits)
qed (simp_all add: setCustom_def deleteCustom_def getCustom_def)

text \<open>
The three accessors on the key \<open>123\<close> and on the key \<open>k\<close>, over the in-memory store.
\<close>

theorem custom_key_check_witness:
  "setCustom (\<lambda>v. v) mem_srv (JNum 123) (JStr ''v'') JUndefined empty_world
     = (Throws (Error ''setCustom - key should be a string''), empty_world, [])
   \<and> deleteCustom mem_srv (JNum 123) empty_world
     = (Throws (Error ''deleteCustom - key should be a string''), empty_world, [])
   \<and> getCustom Inr mem_srv (JNum 123) empty_world
     = (Returns (Inl (Error ''getCustom - key should be a string'')), empty_world, [])
   \<and> fst (setCustom (\<lambda>v. v) mem_srv (JStr ''k'') (JStr ''v'') (JNum 60) empty_world)
     = Returns (Inr (JStr ''OK''))
   \<and> fst (deleteCustom mem_srv (JStr ''k'') empty_world) = Returns (Inr (JNum 0))
   \<and> fst (getCustom Inr mem_srv (JStr ''k'') empty_world) = Returns (Inr JNull)"
proof -
  have n: "\<not> is_string (JNum 123)" and s: "is_string (JStr ''k'')" by simp_all
  from n custom_key_check [of "JNum 123" "\<lambda>v. v" mem_srv "JStr ''v''" JUndefined empty_world Inr]
  have a: "setCustom (\<lambda>v. v) mem_srv (JNum 123) (JStr ''v'') JUndefined empty_world
     = (Throws (Error ''setCustom - key should be a string''), empty_world, [])
   \<and> deleteCustom mem_srv (JNum 123) empty_world
     = (Throws (Error ''deleteCustom - key should be a string''), empty_world, [])
   \<and> getCustom Inr mem_srv (JNum 123) empty_world
     = (Returns (Inl (Error ''getCustom - key should be a string'')), empty_world, [])"
    by blast
  from s custom_key_check [of "JStr ''k''" "\<lambda>v. v" mem_srv "JStr ''v''" "JNum 60" empty_world Inr]
  have b: "fst (setCustom (\<lambda>v. v) mem_srv (JStr ''k'') (JStr ''v'') (JNum 60) empty_world)
        = Returns (fst (mem_srv (if truthy (JNum 60) then SET_EX (to_string (JStr ''k'')) (JStr ''v'') (JNum 60)
                             else SET (to_string (JStr ''k'')) (JStr ''v'')) empty_world))
      \<and> fst (deleteCustom mem_srv (JStr ''k'') empty_world) = Returns (fst (mem_srv (DEL (JStr ''k'')) empty_world))
      \<and> fst (getCustom Inr mem_srv (JStr ''k'') empty_world)
        = Returns (case fst (mem_srv (GET (JStr ''k'')) empty_world) of Inl e \<Rightarrow> Inl e | Inr response \<Rightarrow> Inr response)"
    by blast
  have c: "fst (mem_srv (SET_EX ''k'' (JStr ''v'') (JNum 60)) empty_world) = Inr (JStr ''OK'')"
    "fst (mem_srv (DEL (JStr ''k'')) empty_world) = Inr (JNum 0)"
    "fst (mem_srv (GET (JStr ''k'')) empty_world) = Inr JNull"
    by (simp_all add: empty_world_def mem_set_def del_names_def)
  from a b c show ?thesis by simp
qed


text \<open>
C9 as stated fails for \<open>getCustom\<close>: called with the key \<open>123\<close> it does not throw.
\<close>

theorem getCustom_no_throw_counterexample:
  "\<not> (\<exists>e. fst (getCustom Inr mem_srv (JNum 123) empty_world) = Throws e)"
  by (simp add: getCustom_def)

lemma bind_act_cases:
  assumes "bind_act m f w = (r, w', tr)"
  obtains (thrown) e where "m w = (Inl e, w', tr)" "r = Inl e"
    | (continued) x w1 tr1 tr2 where "m w = (Inr x, w1, tr1)" "f x w1 = (r, w', tr2)" "tr = tr1 @ tr2"
  using assms by (auto simp: bind_act_def split: prod.splits sum.splits)

lemma ret_eq [simp]: "(ret x w = (r, w', tr)) = (r = Inr x \<and> w' = w \<and> tr = [])"
  by (auto simp: ret_def)

lemma throw_eq [simp]: "(throw e w = (r, w', tr)) = (r = Inl e \<and> w' = w \<and> tr = [])"
  by (auto simp: throw_def)

lemma lift_eq [simp]: "(lift x w = (r, w', tr)) = (x = r \<and> w' = w \<and> tr = [])"
  by (auto simp: lift_def)

lemma bind_lift_Inr [simp]: "bind_act (lift (Inr x)) f = f x"
  by (rule ext) (simp add: bind_act_def lift_def split: prod.splits)

lemma bind_lift_Inl [simp]: "bind_act (lift (Inl e)) f = throw e"
  by (rule ext) (simp add: bind_act_def lift_def throw_def)

lemma bind_ret [simp]: "bind_act (ret x) f = f x"
  by (rule ext) (simp add: bind_act_def ret_def split: prod.splits)

lemma bind_throw [simp]: "bind_act (throw e) f = throw e"
  by (rule ext) (simp add: bind_act_def throw_def)

lemma call_eq: "(call srv c w = (r, w', tr)) = (srv c w = (r, w') \<and> tr = [Ev c r])"
  by (auto simp: call_def split: prod.splits)

lemma dispatch_eq:
  "(dispatch srv c w = (r, w', tr)) = (\<exists>p. srv c w = (p, w') \<and> r = Inr p \<and> tr = [Ev c p])"
  by (auto simp: dispatch_def split: prod.splits)

lemma sync_cases:
  assumes "sync cfg stringify srv shouldReset w = (res, w', tr)"
  obtains
    (fetch_failed) e where
      "sync_fetch srv shouldReset w = (Inl e, w', tr)" "res = Inl (Wrapped e)"
  | (entries_failed) response w0 tr0 e tr1 where
      "sync_fetch srv shouldReset w = (Inr response, w0, tr0)"
      "sync_entries cfg stringify srv response w0 = (Inl e, w', tr1)"
      "tr = tr0 @ tr1" "res = Inl (Wrapped e)"
  | (deleted_failed) response w0 tr0 ps1 w1 tr1 e tr2 where
      "sync_fetch srv shouldReset w = (Inr response, w0, tr0)"
      "sync_entries cfg stringify srv response w0 = (Inr ps1, w1, tr1)"
      "sync_deleted srv response w1 = (Inl e, w', tr2)"
      "tr = tr0 @ tr1 @ tr2" "res = Inl (Wrapped e)"
  | (persisted) response w0 tr0 ps1 w1 tr1 ps2 w2 tr2 rh where
      "sync_fetch srv shouldReset w = (Inr response, w0, tr0)"
      "sync_entries cfg stringify srv response w0 = (Inr ps1, w1, tr1)"
      "sync_deleted srv response w1 = (Inr ps2, w2, tr2)"
      "srv (HSET ''redis-contentful'' ''nextSyncToken'' (js_prop response ''nextSyncToken'')) w2
         = (rh, w')"
      "tr = tr0 @ tr1 @ tr2
              @ [Ev (HSET ''redis-contentful'' ''nextSyncToken'' (js_prop response ''nextSyncToken'')) rh]"
      "res = (case rh of
                Inl e \<Rightarrow> Inl (Wrapped e)
              | Inr ok \<Rightarrow>
                  (case sequence_err (ps1 @ ps2) of
                     Inl e \<Rightarrow> Inl (Wrapped e)
                   | Inr oks \<Rightarrow> Inr (JObj [(''message'', JStr ''Sync Complete'')])))"
proof -
  obtain r0 w0' tr' where body: "sync_body cfg stringify srv shouldReset w = (r0, w0', tr')"
    by (cases "sync_body cfg stringify srv shouldReset w")
  with assms have res: "res = (case r0 of Inl e \<Rightarrow> Inl (Wrapped e) | Inr v \<Rightarrow> Inr v)"
    and [simp]: "w0' = w'" "tr' = tr"
    by (auto simp: sync_def split: sum.splits)
  from body [unfolded sync_body_def] show thesis
  proof (cases rule: bind_act_cases)
    case (thrown e)
    with res fetch_failed show ?thesis by simp
  next
    case (continued response w0 tr0 trA)
    note fetch = continued(1)
    from continued(2) show ?thesis
    proof (cases rule: bind_act_cases)
      case (thrown e)
      with res entries_failed [OF fetch] continued(3) show ?thesis by simp
    next
      case (continued ps1 w1 tr1 trB)
      note entries = continued(1)
      note trA = continued(3)
      from continued(2) show ?thesis
      proof (cases rule: bind_act_cases)
        case (thrown e)
        with res deleted_failed [OF fetch entries] trA \<open>tr' = tr0 @ trA\<close> show ?thesis by simp
      next
        case (continued ps2 w2 tr2 trC)
        note deleted = continued(1)
        obtain rh wh where h: "srv (HSET ''redis-contentful'' ''nextSyncToken'' (js_prop response ''nextSyncToken'')) w2 = (rh, wh)"
          by (cases "srv (HSET ''redis-contentful'' ''nextSyncToken'' (js_prop response ''nextSyncToken'')) w2")
        from continued(2) h have fin: "wh = w'"
          "trC = [Ev (HSET ''redis-contentful'' ''nextSyncToken'' (js_prop response ''nextSyncToken'')) rh]"
          "r0 = (case rh of
                Inl e \<Rightarrow> Inl e
              | Inr ok \<Rightarrow>
                  (case sequence_err (ps1 @ ps2) of
                     Inl e \<Rightarrow> Inl e
                   | Inr oks \<Rightarrow> Inr (JObj [(''message'', JStr ''Sync Complete'')])))"
          by (auto simp: sync_finish_def bind_act_def call_def lift_def ret_def split: sum.splits prod.splits)
        show ?thesis
        proof (rule persisted [OF fetch entries deleted])
          show "srv (HSET ''redis-contentful'' ''nextSyncToken'' (js_prop response ''nextSyncToken'')) w2 = (rh, w')"
            using h fin by simp
          show "tr = tr0 @ tr1 @ tr2 @ [Ev (HSET ''redis-contentful'' ''nextSyncToken'' (js_prop response ''nextSyncToken'')) rh]"
            using \<open>tr' = tr0 @ trA\<close> trA continued(3) fin by simp
          show "res = (case rh of
                Inl e \<Rightarrow> Inl (Wrapped e)
              | Inr ok \<Rightarrow>
                  (case sequence_err (ps1 @ ps2) of
                     Inl e \<Rightarrow> Inl (Wrapped e)
                   | Inr oks \<Rightarrow> Inr (JObj [(''message'', JStr ''Sync Complete'')])))"
            using res fin by (auto split: sum.splits)
        qed
      qed
    qed
  qed
qed

lemma writes_append [simp]: "writes (a @ b) = writes a @ writes b"
  and scans_append [simp]: "scans (a @ b) = scans a @ scans b"
  and pages_append [simp]: "pages (a @ b) = pages a @ pages b"
  and deletes_append [simp]: "deletes (a @ b) = deletes a @ deletes b"
  and reads_append [simp]: "reads (a @ b) = reads a @ reads b"
  by (simp_all add: writes_def scans_def pages_def deletes_def reads_def)

lemma projections_Nil [simp]:
  "writes [] = []" "scans [] = []" "pages [] = []" "deletes [] = []" "reads [] = []"
  by (simp_all add: writes_def scans_def pages_def deletes_def reads_def)

lemma projections_Cons:
  "writes (Ev c r # tr) = (case c of SET k v \<Rightarrow> [(k, v)] | _ \<Rightarrow> []) @ writes tr"
  "scans (Ev c r # tr) = (case c of SCAN a \<Rightarrow> [a] | _ \<Rightarrow> []) @ scans tr"
  "pages (Ev c r # tr) =
     (case c of SCAN a \<Rightarrow> (case r of Inr v \<Rightarrow> [js_prop v ''1''] | Inl e \<Rightarrow> []) | _ \<Rightarrow> []) @ pages tr"
  "deletes (Ev c r # tr) = (case c of DEL ks \<Rightarrow> [ks] | _ \<Rightarrow> []) @ deletes tr"
  "reads (Ev c r # tr) = (case c of GET k \<Rightarrow> [k] | _ \<Rightarrow> []) @ reads tr"
  by (cases c; simp add: writes_def scans_def pages_def deletes_def reads_def)+

lemma fetch_cmd_projections:
  assumes "\<forall>ev \<in> set tr. fetch_cmd (ev_cmd ev)"
  shows "writes tr = []" "scans tr = []" "pages tr = []" "deletes tr = []"
  using assms
  by (induction tr; auto simp: writes_def scans_def pages_def deletes_def split: cmd.splits)+

lemma set_cmd_projections:
  assumes "\<forall>ev \<in> set tr. set_cmd (ev_cmd ev)"
  shows "scans tr = []" "pages tr = []" "deletes tr = []"
  using assms
  by (induction tr; auto simp: scans_def pages_def deletes_def split: cmd.splits)+

lemma scan_del_cmd_projections:
  assumes "\<forall>ev \<in> set tr. scan_del_cmd (ev_cmd ev)"
  shows "writes tr = []"
  using assms
  by (induction tr; auto simp: writes_def split: cmd.splits)

lemma writes_mem: "Ev (SET k v) rp \<in> set tr \<Longrightarrow> (k, v) \<in> set (writes tr)"
  by (force simp: writes_def)

lemma sync_fetch_events:
  assumes "sync_fetch srv shouldReset w = (r, w', tr)"
  shows "\<forall>ev \<in> set tr. fetch_cmd (ev_cmd ev)"
  using assms
  by (auto simp: sync_fetch_def bind_act_def call_def ret_def
           split: if_splits prod.splits sum.splits)

lemma sync_fetch_response:
  assumes "sync_fetch srv shouldReset w = (Inr response, w', tr)"
  shows "\<exists>a. Ev (CFSYNC a) (Inr response) \<in> set tr"
    and "Ev (CFSYNC a) (Inr r) \<in> set tr \<Longrightarrow> r = response"
  using assms
  by (auto simp: sync_fetch_def bind_act_def call_def ret_def
           split: if_splits prod.splits sum.splits)

lemma filter_err_Inr: "filter_err p xs = Inr ys \<Longrightarrow> ys = filter (\<lambda>x. p x = Inr True) xs"
  by (induction xs arbitrary: ys) (auto split: sum.splits if_splits)

lemma allowed_True:
  "(allowed cfg entry = Inr True) = (\<exists>n \<in> set (contentTypes cfg). entry_type_id entry = Inr (JStr n))"
  by (auto simp: allowed_def split: sum.splits jsval.splits)

lemma finalEntries_selected: "finalEntries cfg es = Inr final \<Longrightarrow> final = selected cfg es"
  by (auto simp: finalEntries_def selected_def allowed_True dest!: filter_err_Inr split: if_splits)

lemma selected_subset: "set (selected cfg es) \<subseteq> set es"
  by (auto simp: selected_def)

lemma write_entry_cases:
  assumes "bind_act (lift (entry_write cfg stringify e))
             (\<lambda>(key, val). dispatch srv (SET key val)) w = (r, w', tr)"
  obtains (thrown) err where
      "entry_write cfg stringify e = Inl err" "r = Inl err" "tr = []" "w' = w"
    | (written) k v p where
      "entry_write cfg stringify e = Inr (k, v)" "srv (SET k v) w = (p, w')"
      "r = Inr p" "tr = [Ev (SET k v) p]"
  using assms by (cases rule: bind_act_cases) (auto simp: dispatch_eq)

lemma for_each_writes:
  assumes "for_each (\<lambda>entry. bind_act (lift (entry_write cfg stringify entry))
                       (\<lambda>(key, val). dispatch srv (SET key val))) es w = (r, w', tr)"
  shows "(\<forall>ev \<in> set tr. set_cmd (ev_cmd ev))
       \<and> (\<exists>n. map Inr (writes tr) = map (entry_write cfg stringify) (take n es))
       \<and> (\<forall>ps. r = Inr ps \<longrightarrow>
             map Inr (writes tr) = map (entry_write cfg stringify) es \<and> ps = map ev_reply tr)"
  using assms
proof (induction es arbitrary: w r w' tr)
  case Nil
  then show ?case by simp
next
  case (Cons e es)
  from Cons.prems [unfolded for_each.simps] show ?case
  proof (cases rule: bind_act_cases)
    case (thrown err)
    from thrown(1) have "tr = []" by (cases rule: write_entry_cases) simp_all
    with thrown(2) show ?thesis by (auto intro: exI [of _ 0])
  next
    case (continued p w1 tr1 tr2)
    from continued(1) obtain k v where
      ew: "entry_write cfg stringify e = Inr (k, v)" and tr1: "tr1 = [Ev (SET k v) p]"
      by (cases rule: write_entry_cases) simp_all
    from continued(2) show ?thesis
    proof (cases rule: bind_act_cases)
      case (thrown err)
      from Cons.IH [OF thrown(1)] obtain n where
        ev: "\<forall>ev \<in> set tr2. set_cmd (ev_cmd ev)"
        and n: "map Inr (writes tr2) = map (entry_write cfg stringify) (take n es)"
        by blast
      have "map Inr (writes tr) = map (entry_write cfg stringify) (take (Suc n) (e # es))"
        using n ew tr1 continued(3) by (simp add: projections_Cons)
      then have "\<exists>n. map Inr (writes tr) = map (entry_write cfg stringify) (take n (e # es))" ..
      with ev thrown(2) tr1 continued(3) show ?thesis by simp
    next
      case (continued ys w2 tr3 tr4)
      from Cons.IH [OF continued(1)] have
        ev: "\<forall>ev \<in> set tr3. set_cmd (ev_cmd ev)"
        and n: "map Inr (writes tr3) = map (entry_write cfg stringify) es"
        and ys: "ys = map ev_reply tr3"
        by blast+
      from continued(2,3) have r: "r = Inr (p # ys)" and tr2: "tr2 = tr3" by simp_all
      have full: "map Inr (writes tr) = map (entry_write cfg stringify) (e # es)"
        using n ew tr1 tr2 \<open>tr = tr1 @ tr2\<close> by (simp add: projections_Cons)
      then have "map Inr (writes tr) = map (entry_write cfg stringify) (take (length (e # es)) (e # es))"
        by simp
      then have "\<exists>n. map Inr (writes tr) = map (entry_write cfg stringify) (take n (e # es))" ..
      with full ev r ys tr1 tr2 \<open>tr = tr1 @ tr2\<close> show ?thesis by simp
    qed
  qed
qed

lemma sync_entries_cases:
  assumes "sync_entries cfg stringify srv response w = (r, w', tr)"
  obtains (none) "tr = []" "w' = w" "\<forall>ps. r = Inr ps \<longrightarrow> ps = [] \<and> selected cfg (elems (js_prop response ''entries'')) = []"
    | (some) "for_each (\<lambda>entry. bind_act (lift (entry_write cfg stringify entry))
                       (\<lambda>(key, val). dispatch srv (SET key val)))
                (selected cfg (elems (js_prop response ''entries''))) w = (r, w', tr)"
proof (cases "response = JUndefined \<or> response = JNull")
  case True
  with assms none show ?thesis
    by (auto simp: sync_entries_def get_prop_def)
next
  case False
  define entries where "entries = js_prop response ''entries''"
  from False have eq: "sync_entries cfg stringify srv response =
      (if truthy entries \<and> truthy (js_prop entries ''length'') then
            (if is_array entries then
               bind_act (lift (finalEntries cfg (elems entries)))
                 (for_each (\<lambda>entry.
                    bind_act (lift (entry_write cfg stringify entry))
                      (\<lambda>(key, val). dispatch srv (SET key val))))
             else throw TypeError)
          else ret [])"
    by (simp add: sync_entries_def get_prop_def entries_def)
  note body = assms [unfolded eq]
  show ?thesis
  proof (cases "truthy entries \<and> truthy (js_prop entries ''length'')")
    case False
    then have "elems entries = []" by (cases entries) auto
    with False body none show ?thesis by (auto simp: entries_def selected_def)
  next
    case True
    show ?thesis
    proof (cases "is_array entries")
      case False
      with True body none show ?thesis by auto
    next
      case arr: True
      with True body have "bind_act (lift (finalEntries cfg (elems entries)))
                 (for_each (\<lambda>entry.
                    bind_act (lift (entry_write cfg stringify entry))
                      (\<lambda>(key, val). dispatch srv (SET key val)))) w = (r, w', tr)" by simp
      then show ?thesis
      proof (cases rule: bind_act_cases)
        case (thrown e)
        with none show ?thesis by auto
      next
        case (continued final w1 tr1 tr2)
        then have "final = selected cfg (elems entries)" "w1 = w" "tr1 = []"
          by (auto dest: finalEntries_selected)
        with continued some show ?thesis by (simp add: entries_def)
      qed
    qed
  qed
qed

lemma for_each_writes_events:
  assumes "for_each (\<lambda>entry. bind_act (lift (entry_write cfg stringify entry))
                       (\<lambda>(key, val). dispatch srv (SET key val))) es w = (r, w', tr)"
  shows "\<forall>ev \<in> set tr. set_cmd (ev_cmd ev)"
  using for_each_writes [OF assms] by (rule conjunct1)

lemma for_each_writes_prefix:
  assumes "for_each (\<lambda>entry. bind_act (lift (entry_write cfg stringify entry))
                       (\<lambda>(key, val). dispatch srv (SET key val))) es w = (r, w', tr)"
  obtains n where "map Inr (writes tr) = map (entry_write cfg stringify) (take n es)"
  using for_each_writes [OF assms] by blast

lemma for_each_writes_done:
  assumes "for_each (\<lambda>entry. bind_act (lift (entry_write cfg stringify entry))
                       (\<lambda>(key, val). dispatch srv (SET key val))) es w = (Inr ps, w', tr)"
  shows "map Inr (writes tr) = map (entry_write cfg stringify) es" "ps = map ev_reply tr"
  using for_each_writes [OF assms] by blast+

lemma sync_entries_events:
  assumes "sync_entries cfg stringify srv response w = (r, w', tr)"
  shows "\<forall>ev \<in> set tr. set_cmd (ev_cmd ev)"
  using assms
proof (cases rule: sync_entries_cases)
  case none
  then show ?thesis by simp
next
  case some
  then show ?thesis by (rule for_each_writes_events)
qed

lemma sync_entries_sub:
  assumes "sync_entries cfg stringify srv response w = (r, w', tr)"
    and "(k, v) \<in> set (writes tr)"
  shows "\<exists>e \<in> set (elems (js_prop response ''entries'')). entry_write cfg stringify e = Inr (k, v)"
  using assms(1)
proof (cases rule: sync_entries_cases)
  case none
  with assms(2) show ?thesis by simp
next
  case some
  from some obtain n where
    "map Inr (writes tr)
       = map (entry_write cfg stringify) (take n (selected cfg (elems (js_prop response ''entries''))))"
    by (rule for_each_writes_prefix)
  then have "set (map Inr (writes tr))
       = set (map (entry_write cfg stringify) (take n (selected cfg (elems (js_prop response ''entries'')))))"
    by (rule arg_cong)
  then have "Inr ` set (writes tr)
       = entry_write cfg stringify ` set (take n (selected cfg (elems (js_prop response ''entries''))))"
    by (simp only: set_map)
  moreover from assms(2) have "(Inr (k, v) :: exn + string \<times> jsval) \<in> Inr ` set (writes tr)"
    by (rule imageI)
  ultimately have "Inr (k, v) \<in> entry_write cfg stringify ` set (take n (selected cfg (elems (js_prop response ''entries''))))"
    by (simp only:)
  then obtain e where
    e: "e \<in> set (take n (selected cfg (elems (js_prop response ''entries''))))"
    and w: "entry_write cfg stringify e = Inr (k, v)"
    by (auto simp only: image_iff)
  from e have "e \<in> set (selected cfg (elems (js_prop response ''entries'')))"
    by (rule in_set_takeD)
  with selected_subset have "e \<in> set (elems (js_prop response ''entries''))" by blast
  with w show ?thesis by blast
qed

lemma sync_entries_done:
  assumes "sync_entries cfg stringify srv response w = (Inr ps, w', tr)"
  shows "map Inr (writes tr)
           = map (entry_write cfg stringify) (selected cfg (elems (js_prop response ''entries'')))"
    and "ps = map ev_reply tr"
proof -
  from assms have "map Inr (writes tr)
           = map (entry_write cfg stringify) (selected cfg (elems (js_prop response ''entries'')))
        \<and> ps = map ev_reply tr"
  proof (cases rule: sync_entries_cases)
    case none
    then show ?thesis by simp
  next
    case some
    from for_each_writes_done [OF some] show ?thesis by simp
  qed
  then show "map Inr (writes tr)
           = map (entry_write cfg stringify) (selected cfg (elems (js_prop response ''entries'')))"
    and "ps = map ev_reply tr" by simp_all
qed

lemma del_replies_append [simp]: "del_replies (a @ b) = del_replies a @ del_replies b"
  by (simp add: del_replies_def)

lemma del_replies_Nil [simp]: "del_replies [] = []"
  by (simp add: del_replies_def)

lemma del_replies_mem: "Ev (DEL ks) r \<in> set tr \<Longrightarrow> r \<in> set (del_replies tr)"
  by (force simp: del_replies_def)

lemma paired_append: "paired a \<Longrightarrow> paired b \<Longrightarrow> paired (a @ b)"
proof (induction a)
  case Nil
  then show ?case by simp
next
  case (Cons ev a)
  then show ?case by (cases a) auto
qed

lemma paired_plain: "\<forall>ev \<in> set tr. \<not> needs_del ev \<Longrightarrow> paired tr"
  by (induction tr) auto

lemma paired_nth:
  "paired tr \<Longrightarrow> i < length tr \<Longrightarrow> needs_del (tr ! i) \<Longrightarrow>
   Suc i < length tr \<and> ev_cmd (tr ! Suc i) = DEL (page_of (tr ! i))"
proof (induction tr arbitrary: i)
  case Nil
  then show ?case by simp
next
  case (Cons ev tr)
  show ?case
  proof (cases i)
    case 0
    with Cons.prems show ?thesis by (cases tr) auto
  next
    case (Suc j)
    with Cons.prems Cons.IH [of j] show ?thesis by auto
  qed
qed

lemma not_needs_del: "fetch_cmd (ev_cmd ev) \<or> set_cmd (ev_cmd ev) \<Longrightarrow> \<not> needs_del ev"
  by (cases "ev_cmd ev") (auto simp: needs_del_def)

lemma delete_entry_cases:
  assumes "delete_entry srv e w = (r, w', tr)"
  obtains
    (no_scan) err where "tr = []" "r = Inl err"
  | (scan_failed) err where "tr = [Ev (SCAN (suffix_scan e)) (Inl err)]" "r = Inl err"
  | (no_page) rk where "tr = [Ev (SCAN (suffix_scan e)) (Inr rk)]"
      "\<not> truthy (js_prop rk ''1'')" "r = Inr [] \<or> r = Inl TypeError"
  | (deleted) rk d where
      "tr = [Ev (SCAN (suffix_scan e)) (Inr rk), Ev (DEL (js_prop rk ''1'')) d]"
      "truthy (js_prop rk ''1'')" "r = Inr [d]"
proof (cases "get_prop e ''sys''")
  case (Inl err)
  with assms no_scan show ?thesis by (simp add: delete_entry_def)
next
  case sys: (Inr sys)
  then have sys_eq: "sys = js_prop e ''sys''" by (auto simp: get_prop_def split: if_splits)
  show ?thesis
  proof (cases "get_prop sys ''id''")
    case (Inl err)
    with assms sys no_scan show ?thesis by (simp add: delete_entry_def)
  next
    case (Inr i)
    then have i: "i = js_prop (js_prop e ''sys'') ''id''"
      using sys_eq by (auto simp: get_prop_def split: if_splits)
    from assms sys Inr have
      "bind_act (call srv (SCAN (suffix_scan e)))
                 (\<lambda>responseKey.
                    bind_act (lift (get_prop responseKey ''1''))
                      (\<lambda>matches.
                         if truthy matches
                         then bind_act (dispatch srv (DEL matches)) (\<lambda>p. ret [p])
                         else ret [])) w = (r, w', tr)"
      by (simp add: delete_entry_def suffix_scan_def i)
    then show ?thesis
    proof (cases rule: bind_act_cases)
      case (thrown err)
      with scan_failed show ?thesis by (auto simp: call_eq)
    next
      case (continued rk w1 tr1 tr2)
      then have tr1: "tr1 = [Ev (SCAN (suffix_scan e)) (Inr rk)]" by (auto simp: call_eq)
      show ?thesis
      proof (cases "rk = JUndefined \<or> rk = JNull")
        case True
        with continued(2) have "tr2 = []" "r = Inl TypeError"
          by (auto simp: get_prop_def)
        moreover from True have "\<not> truthy (js_prop rk ''1'')" by (auto simp: lookup_def)
        ultimately show ?thesis using no_page tr1 continued(3) by simp
      next
        case False
        with continued(2) have rest:
          "(if truthy (js_prop rk ''1'')
            then bind_act (dispatch srv (DEL (js_prop rk ''1''))) (\<lambda>p. ret [p])
            else ret []) w1 = (r, w', tr2)"
          by (simp add: get_prop_def)
        show ?thesis
        proof (cases "truthy (js_prop rk ''1'')")
          case True
          with rest obtain d where "tr2 = [Ev (DEL (js_prop rk ''1'')) d]" "r = Inr [d]"
            by (auto simp: bind_act_def dispatch_def ret_def split: prod.splits)
          with True deleted tr1 continued(3) show ?thesis by simp
        next
          case False
          with rest have "tr2 = []" "r = Inr []" by simp_all
          with False no_page tr1 continued(3) show ?thesis by simp
        qed
      qed
    qed
  qed
qed

lemma delete_entry_facts:
  assumes "delete_entry srv e w = (r, w', tr)"
  shows "(\<forall>ev \<in> set tr. scan_del_cmd (ev_cmd ev))
       \<and> deletes tr = filter truthy (pages tr)
       \<and> paired tr
       \<and> (\<forall>ps. r = Inr ps \<longrightarrow> scans tr = [suffix_scan e] \<and> ps = del_replies tr)"
  using assms
  by (cases rule: delete_entry_cases)
     (auto simp: projections_Cons del_replies_def needs_del_def page_of_def)

lemma for_each_delete:
  assumes "for_each (delete_entry srv) es w = (r, w', tr)"
  shows "(\<forall>ev \<in> set tr. scan_del_cmd (ev_cmd ev))
       \<and> deletes tr = filter truthy (pages tr)
       \<and> paired tr
       \<and> (\<forall>pss. r = Inr pss \<longrightarrow> scans tr = map suffix_scan es \<and> concat pss = del_replies tr)"
  using assms
proof (induction es arbitrary: w r w' tr)
  case Nil
  then show ?case by simp
next
  case (Cons e es)
  from Cons.prems [unfolded for_each.simps] show ?case
  proof (cases rule: bind_act_cases)
    case (thrown err)
    from delete_entry_facts [OF thrown(1)] thrown(2) show ?thesis by simp
  next
    case (continued ps w1 tr1 tr2)
    note one = delete_entry_facts [OF continued(1)]
    from continued(2) show ?thesis
    proof (cases rule: bind_act_cases)
      case (thrown err)
      from Cons.IH [OF thrown(1)] one thrown(2) \<open>tr = tr1 @ tr2\<close>
      show ?thesis by (auto intro: paired_append)
    next
      case (continued pss w2 tr3 tr4)
      then have "r = Inr (ps # pss)" "tr2 = tr3" by simp_all
      with Cons.IH [OF continued(1)] one \<open>tr = tr1 @ tr2\<close>
      show ?thesis by (auto intro: paired_append)
    qed
  qed
qed

lemma sync_deleted_facts:
  assumes "sync_deleted srv response w = (r, w', tr)"
  shows "(\<forall>ev \<in> set tr. scan_del_cmd (ev_cmd ev))
       \<and> deletes tr = filter truthy (pages tr)
       \<and> paired tr
       \<and> (\<forall>ps. r = Inr ps \<longrightarrow>
             scans tr = map suffix_scan (elems (js_prop response ''deletedEntries''))
             \<and> ps = del_replies tr)"
proof (cases "truthy (js_prop response ''deletedEntries'')
              \<and> truthy (js_prop (js_prop response ''deletedEntries'') ''length'')")
  case False
  then have "elems (js_prop response ''deletedEntries'') = []"
    by (cases "js_prop response ''deletedEntries''") auto
  with False assms show ?thesis by (auto simp: sync_deleted_def Let_def)
next
  case True
  show ?thesis
  proof (cases "is_array (js_prop response ''deletedEntries'')")
    case False
    with True assms show ?thesis by (auto simp: sync_deleted_def Let_def)
  next
    case arr: True
    with True assms have
      "bind_act (for_each (delete_entry srv) (elems (js_prop response ''deletedEntries'')))
         (\<lambda>pss. ret (concat pss)) w = (r, w', tr)"
      by (simp add: sync_deleted_def Let_def)
    then show ?thesis
    proof (cases rule: bind_act_cases)
      case (thrown err)
      from for_each_delete [OF thrown(1)] thrown(2) show ?thesis by simp
    next
      case (continued pss w1 tr1 tr2)
      then have "r = Inr (concat pss)" "tr = tr1" by simp_all
      with for_each_delete [OF continued(1)] show ?thesis by simp
    qed
  qed
qed

lemma entry_write_key:
  assumes "entry_write cfg stringify entry = Inr (key, val)"
  shows "key = to_string (js_prop (js_prop (js_prop (js_prop entry ''sys'') ''contentType'') ''sys'') ''id'')
               @ '':''
               @ (if truthy (js_prop entry ''fields'')
                     \<and> truthy (js_prop (js_prop entry ''fields'') (cf_identifier cfg))
                     \<and> truthy (js_prop (js_prop (js_prop entry ''fields'') (cf_identifier cfg))
                                        (cf_locale cfg))
                  then to_string (js_prop (js_prop (js_prop entry ''fields'') (cf_identifier cfg))
                                          (cf_locale cfg))
                  else [])
               @ '':'' @ to_string (js_prop (js_prop entry ''sys'') ''id'')"
    and "\<exists>extracted. extract_entry entry (cf_locale cfg) = Inr extracted \<and> val = stringify extracted"
proof -
  from assms obtain ct extracted where
    ct: "entry_type_id entry = Inr ct"
    and ex: "extract_entry entry (cf_locale cfg) = Inr extracted"
    and key: "key = to_string ct @ '':'' @ to_string (identifier_value cfg entry)
                      @ '':'' @ to_string (js_prop (js_prop entry ''sys'') ''id'')"
    and val: "val = stringify extracted"
    by (auto simp: entry_write_def split: sum.splits)
  from ct have "ct = js_prop (js_prop (js_prop (js_prop entry ''sys'') ''contentType'') ''sys'') ''id''"
    by (auto simp: entry_type_id_def get_prop_def split: sum.splits if_splits)
  moreover have "to_string (identifier_value cfg entry)
      = (if truthy (js_prop entry ''fields'')
            \<and> truthy (js_prop (js_prop entry ''fields'') (cf_identifier cfg))
            \<and> truthy (js_prop (js_prop (js_prop entry ''fields'') (cf_identifier cfg))
                               (cf_locale cfg))
         then to_string (js_prop (js_prop (js_prop entry ''fields'') (cf_identifier cfg))
                                 (cf_locale cfg))
         else [])"
    by (simp add: identifier_value_def Let_def)
  ultimately show "key = to_string (js_prop (js_prop (js_prop (js_prop entry ''sys'') ''contentType'') ''sys'') ''id'')
               @ '':''
               @ (if truthy (js_prop entry ''fields'')
                     \<and> truthy (js_prop (js_prop entry ''fields'') (cf_identifier cfg))
                     \<and> truthy (js_prop (js_prop (js_prop entry ''fields'') (cf_identifier cfg))
                                        (cf_locale cfg))
                  then to_string (js_prop (js_prop (js_prop entry ''fields'') (cf_identifier cfg))
                                          (cf_locale cfg))
                  else [])
               @ '':'' @ to_string (js_prop (js_prop entry ''sys'') ''id'')"
    using key by simp
  from ex val show "\<exists>extracted. extract_entry entry (cf_locale cfg) = Inr extracted \<and> val = stringify extracted"
    by blast
qed

text \<open>Where the events of a run of \<open>sync\<close> come from.\<close>

lemma sync_set_event:
  assumes "sync cfg stringify srv shouldReset w = (res, w', tr)"
    and "Ev (SET key val) rp \<in> set tr"
  obtains response w0 tr0 r1 w1 tr1 where
    "sync_fetch srv shouldReset w = (Inr response, w0, tr0)"
    "sync_entries cfg stringify srv response w0 = (r1, w1, tr1)"
    "Ev (SET key val) rp \<in> set tr1"
    "set tr0 \<subseteq> set tr"
  using assms(1)
proof (cases rule: sync_cases)
  case (fetch_failed e)
  from sync_fetch_events [OF fetch_failed(1)] assms(2) show ?thesis by force
next
  case (entries_failed response w0 tr0 e tr1)
  from sync_fetch_events [OF entries_failed(1)] assms(2) entries_failed(3)
  have "Ev (SET key val) rp \<in> set tr1" by force
  with that [OF entries_failed(1,2)] entries_failed(3) show ?thesis by auto
next
  case (deleted_failed response w0 tr0 ps1 w1 tr1 e tr2)
  from sync_fetch_events [OF deleted_failed(1)] sync_deleted_facts [OF deleted_failed(3)]
    assms(2) deleted_failed(4)
  have "Ev (SET key val) rp \<in> set tr1" by force
  with that [OF deleted_failed(1,2)] deleted_failed(4) show ?thesis by auto
next
  case (persisted response w0 tr0 ps1 w1 tr1 ps2 w2 tr2 rh)
  from sync_fetch_events [OF persisted(1)] sync_deleted_facts [OF persisted(3)]
    assms(2) persisted(5)
  have "Ev (SET key val) rp \<in> set tr1" by force
  with that [OF persisted(1,2)] persisted(5) show ?thesis by auto
qed

text \<open>
C1, as amended.  Every key that a run of \<open>sync\<close> writes is, for one of the entries of
  the fetched response, the content-type id of the entry, a colon, the identifier value, a
  colon, and the id of the entry, each rendered as a template literal renders it.  The
  identifier value is the value of the configured identifier field for the configured
  locale when that value is truthy, and the empty string otherwise: when the entry has no
  fields, when the field or its localized value is absent, and also when the value is
  \<open>0\<close>, \<open>false\<close>, \<open>null\<close> or the empty string.
\<close>

theorem sync_cache_key:
  assumes "sync cfg stringify srv shouldReset w = (res, w', tr)"
    and "Ev (SET key val) rp \<in> set tr"
  shows "\<exists>a response entry.
           Ev (CFSYNC a) (Inr response) \<in> set tr
         \<and> entry \<in> set (elems (js_prop response ''entries''))
         \<and> key = to_string (js_prop (js_prop (js_prop (js_prop entry ''sys'') ''contentType'') ''sys'') ''id'')
               @ '':''
               @ (if truthy (js_prop entry ''fields'')
                     \<and> truthy (js_prop (js_prop entry ''fields'') (cf_identifier cfg))
                     \<and> truthy (js_prop (js_prop (js_prop entry ''fields'') (cf_identifier cfg))
                                        (cf_locale cfg))
                  then to_string (js_prop (js_prop (js_prop entry ''fields'') (cf_identifier cfg))
                                          (cf_locale cfg))
                  else [])
               @ '':'' @ to_string (js_prop (js_prop entry ''sys'') ''id'')"
  using assms
proof (cases rule: sync_set_event)
  case (1 response w0 tr0 r1 w1 tr1)
  from sync_fetch_response(1) [OF 1(1)] 1(4) obtain a where
    cf: "Ev (CFSYNC a) (Inr response) \<in> set tr" by blast
  from 1(3) have "(key, val) \<in> set (writes tr1)" by (rule writes_mem)
  from sync_entries_sub [OF 1(2) this] obtain entry where
    e: "entry \<in> set (elems (js_prop response ''entries''))"
    and w: "entry_write cfg stringify entry = Inr (key, val)" by blast
  from cf e entry_write_key(1) [OF w] show ?thesis by blast
qed

lemma sync_hset_event:
  assumes "sync cfg stringify srv shouldReset w = (res, w', tr)"
    and "Ev (HSET h f t) rh \<in> set tr"
  obtains response w0 tr0 ps1 w1 tr1 ps2 w2 tr2 where
    "sync_fetch srv shouldReset w = (Inr response, w0, tr0)"
    "sync_entries cfg stringify srv response w0 = (Inr ps1, w1, tr1)"
    "sync_deleted srv response w1 = (Inr ps2, w2, tr2)"
    "tr = tr0 @ tr1 @ tr2 @ [Ev (HSET h f t) rh]"
    "h = ''redis-contentful''" "f = ''nextSyncToken''" "t = js_prop response ''nextSyncToken''"
    "res = (case rh of
              Inl e \<Rightarrow> Inl (Wrapped e)
            | Inr ok \<Rightarrow>
                (case sequence_err (ps1 @ ps2) of
                   Inl e \<Rightarrow> Inl (Wrapped e)
                 | Inr oks \<Rightarrow> Inr (JObj [(''message'', JStr ''Sync Complete'')])))"
  using assms(1)
proof (cases rule: sync_cases)
  case (fetch_failed e)
  from sync_fetch_events [OF fetch_failed(1)] assms(2) show ?thesis by force
next
  case (entries_failed response w0 tr0 e tr1)
  from sync_fetch_events [OF entries_failed(1)] sync_entries_events [OF entries_failed(2)]
    assms(2) entries_failed(3)
  show ?thesis by force
next
  case (deleted_failed response w0 tr0 ps1 w1 tr1 e tr2)
  from sync_fetch_events [OF deleted_failed(1)] sync_entries_events [OF deleted_failed(2)]
    sync_deleted_facts [OF deleted_failed(3)] assms(2) deleted_failed(4)
  show ?thesis by force
next
  case (persisted response w0 tr0 ps1 w1 tr1 ps2 w2 tr2 rh')
  from sync_fetch_events [OF persisted(1)] sync_entries_events [OF persisted(2)]
    sync_deleted_facts [OF persisted(3)] assms(2) persisted(5)
  have "Ev (HSET h f t) rh
          = Ev (HSET ''redis-contentful'' ''nextSyncToken'' (js_prop response ''nextSyncToken'')) rh'"
    by force
  then have eqs: "h = ''redis-contentful''" "f = ''nextSyncToken''"
    "t = js_prop response ''nextSyncToken''" "rh' = rh" by simp_all
  show ?thesis
    by (rule that [OF persisted(1,2,3)]) (use persisted(5,6) eqs in simp_all)
qed

lemma sync_cfsync_event:
  assumes "sync_fetch srv shouldReset w = (Inr response, w0, tr0)"
    and "\<forall>ev \<in> set tr1. set_cmd (ev_cmd ev)"
    and "\<forall>ev \<in> set tr2. scan_del_cmd (ev_cmd ev)"
    and "Ev (CFSYNC a) (Inr r) \<in> set (tr0 @ tr1 @ tr2 @ [Ev (HSET h f t) rh])"
  shows "r = response"
proof -
  from assms(2,3,4) have "Ev (CFSYNC a) (Inr r) \<in> set tr0" by force
  then show ?thesis by (rule sync_fetch_response(2) [OF assms(1)])
qed

text \<open>
C4.  In a run of \<open>sync\<close> that reached the step storing the cursor, the writes issued are,
  in order, the key and the serialized flattened entry of every entry of the response when
  the allow-list is empty, and of exactly the entries whose content-type id is a member of
  the allow-list when it is not.
\<close>

theorem sync_allow_list:
  assumes "sync cfg stringify srv shouldReset w = (res, w', tr)"
    and "Ev (CFSYNC a) (Inr response) \<in> set tr"
    and "Ev (HSET h f t) rh \<in> set tr"
  shows "map Inr (writes tr)
           = map (entry_write cfg stringify)
               (if contentTypes cfg = [] then elems (js_prop response ''entries'')
                else filter (\<lambda>entry. \<exists>n \<in> set (contentTypes cfg).
                                        entry_type_id entry = Inr (JStr n))
                       (elems (js_prop response ''entries'')))"
  using assms(1,3)
proof (cases rule: sync_hset_event)
  case (1 response' w0 tr0 ps1 w1 tr1 ps2 w2 tr2)
  note ev1 = sync_entries_events [OF 1(2)]
  from sync_deleted_facts [OF 1(3)] have ev2: "\<forall>ev \<in> set tr2. scan_del_cmd (ev_cmd ev)" by simp
  from assms(2) have "response = response'"
    unfolding 1(4) by (rule sync_cfsync_event [OF 1(1) ev1 ev2])
  moreover have "writes tr = writes tr1"
    unfolding 1(4)
    by (simp add: fetch_cmd_projections [OF sync_fetch_events [OF 1(1)]]
                  scan_del_cmd_projections [OF ev2] projections_Cons)
  ultimately show ?thesis
    using sync_entries_done(1) [OF 1(2)] by (simp add: selected_def)
qed

text \<open>
C7.  In a run of \<open>sync\<close> that reached the step storing the cursor, exactly one scan is
  issued per deleted entry of the response, in order, with cursor \<open>0\<close> and the pattern
  \<open>*:*:\<close> followed by the id; and the deletes issued are exactly the pages those scans
  returned (the truthy ones), each page passed whole to one delete, whatever cursor the
  scan returned with it.
\<close>

theorem sync_deletion_scan:
  assumes "sync cfg stringify srv shouldReset w = (res, w', tr)"
    and "Ev (CFSYNC a) (Inr response) \<in> set tr"
    and "Ev (HSET h f t) rh \<in> set tr"
  shows "scans tr
           = map (\<lambda>entry. [''0'', ''MATCH'',
                            ''*:*:'' @ to_string (js_prop (js_prop entry ''sys'') ''id'')])
               (elems (js_prop response ''deletedEntries''))
         \<and> deletes tr = filter truthy (pages tr)"
  using assms(1,3)
proof (cases rule: sync_hset_event)
  case (1 response' w0 tr0 ps1 w1 tr1 ps2 w2 tr2)
  note ev0 = sync_fetch_events [OF 1(1)]
  note ev1 = sync_entries_events [OF 1(2)]
  note del = sync_deleted_facts [OF 1(3)]
  from del have ev2: "\<forall>ev \<in> set tr2. scan_del_cmd (ev_cmd ev)" by simp
  from assms(2) have "response = response'"
    unfolding 1(4) by (rule sync_cfsync_event [OF 1(1) ev1 ev2])
  moreover have "scans tr = scans tr2" "pages tr = pages tr2" "deletes tr = deletes tr2"
    unfolding 1(4)
    by (simp_all add: fetch_cmd_projections [OF ev0] set_cmd_projections [OF ev1] projections_Cons)
  ultimately show ?thesis using del by (simp add: suffix_scan_def [abs_def])
qed

lemma sync_paired:
  assumes "sync cfg stringify srv shouldReset w = (res, w', tr)"
  shows "paired tr"
  using assms
proof (cases rule: sync_cases)
  case (fetch_failed e)
  from sync_fetch_events [OF fetch_failed(1)] show ?thesis
    by (auto intro!: paired_plain simp: not_needs_del)
next
  case (entries_failed response w0 tr0 e tr1)
  from sync_fetch_events [OF entries_failed(1)] sync_entries_events [OF entries_failed(2)]
  show ?thesis unfolding entries_failed(3)
    by (auto intro!: paired_plain simp: not_needs_del)
next
  case (deleted_failed response w0 tr0 ps1 w1 tr1 e tr2)
  from sync_fetch_events [OF deleted_failed(1)] sync_entries_events [OF deleted_failed(2)]
  have "paired (tr0 @ tr1)" by (auto intro!: paired_plain simp: not_needs_del)
  with sync_deleted_facts [OF deleted_failed(3)] show ?thesis
    unfolding deleted_failed(4) append_assoc [symmetric] by (blast intro: paired_append)
next
  case (persisted response w0 tr0 ps1 w1 tr1 ps2 w2 tr2 rh)
  from sync_fetch_events [OF persisted(1)] sync_entries_events [OF persisted(2)]
  have p01: "paired (tr0 @ tr1)" by (auto intro!: paired_plain simp: not_needs_del)
  from sync_deleted_facts [OF persisted(3)] have p2: "paired tr2" by simp
  have p3: "paired [Ev (HSET ''redis-contentful'' ''nextSyncToken'' (js_prop response ''nextSyncToken'')) rh]"
    by (simp add: needs_del_def)
  from paired_append [OF paired_append [OF p01 p2] p3] show ?thesis
    unfolding persisted(5) by simp
qed

text \<open>
C10.  In any run of \<open>sync\<close>, a scan that resolved with an empty list of matching keys is
  followed at once by a delete carrying that empty list.
\<close>

theorem sync_deletes_empty_page:
  assumes "sync cfg stringify srv shouldReset w = (res, w', tr)"
    and "i < length tr"
    and "tr ! i = Ev (SCAN args) (Inr responseKey)"
    and "js_prop responseKey ''1'' = JArr [] ps"
  shows "Suc i < length tr \<and> ev_cmd (tr ! Suc i) = DEL (JArr [] ps)"
proof -
  from assms(3,4) have "needs_del (tr ! i)" "page_of (tr ! i) = JArr [] ps"
    by (simp_all add: needs_del_def page_of_def)
  with paired_nth [OF sync_paired [OF assms(1)] assms(2)] show ?thesis by simp
qed

lemma sequence_err_Inl: "Inl e \<in> set rs \<Longrightarrow> \<exists>e'. sequence_err rs = Inl e'"
  by (induction rs) (auto split: sum.splits)

text \<open>
C2.  In any run of \<open>sync\<close> in which a write or a delete that was issued is rejected and
  the command storing the cursor resolves, the call fails, although the cursor stored is
  the \<open>nextSyncToken\<close> of the fetched response; storing it is the last command of the run,
  so nothing undoes it.
\<close>

theorem sync_cursor_before_await:
  assumes "sync cfg stringify srv shouldReset w = (res, w', tr)"
    and "Ev c (Inl err) \<in> set tr"
    and "(\<exists>k v. c = SET k v) \<or> (\<exists>ks. c = DEL ks)"
    and "Ev (HSET h f token) (Inr ok) \<in> set tr"
  shows "(\<exists>e. res = Inl (Wrapped e))
       \<and> (\<exists>a response. Ev (CFSYNC a) (Inr response) \<in> set tr
                        \<and> token = js_prop response ''nextSyncToken'')
       \<and> h = ''redis-contentful'' \<and> f = ''nextSyncToken''
       \<and> last tr = Ev (HSET h f token) (Inr ok)"
  using assms(1,4)
proof (cases rule: sync_hset_event)
  case (1 response w0 tr0 ps1 w1 tr1 ps2 w2 tr2)
  note ev0 = sync_fetch_events [OF 1(1)]
  note ev1 = sync_entries_events [OF 1(2)]
  note del = sync_deleted_facts [OF 1(3)]
  from del have ev2: "\<forall>ev \<in> set tr2. scan_del_cmd (ev_cmd ev)"
    and ps2: "ps2 = del_replies tr2" by simp_all
  from assms(2,3) ev0 have "Ev c (Inl err) \<in> set tr1 \<or> Ev c (Inl err) \<in> set tr2"
    unfolding 1(4) by force
  then have "Inl err \<in> set (ps1 @ ps2)"
  proof
    assume "Ev c (Inl err) \<in> set tr1"
    then have "ev_reply (Ev c (Inl err)) \<in> set (map ev_reply tr1)" by (simp only: set_map imageI)
    then show ?thesis unfolding sync_entries_done(2) [OF 1(2)] by simp
  next
    assume a: "Ev c (Inl err) \<in> set tr2"
    with ev2 assms(3) obtain ks where "c = DEL ks" by force
    with a have "Inl err \<in> set (del_replies tr2)" by (auto intro: del_replies_mem)
    then show ?thesis unfolding ps2 by simp
  qed
  from sequence_err_Inl [OF this] have "\<exists>e. res = Inl (Wrapped e)"
    unfolding 1(8) by auto
  moreover from sync_fetch_response(1) [OF 1(1)] obtain a where
    "Ev (CFSYNC a) (Inr response) \<in> set tr" unfolding 1(4) by auto
  ultimately show ?thesis using 1(4,5,6,7) by auto
qed

lemma initial_run_append: "initial_run tr \<Longrightarrow> initial_run (tr @ later)"
  by (induction tr rule: initial_run.induct) (auto split: sum.splits list.splits)

lemma incremental_run_append:
  "incremental_run cursor tr \<Longrightarrow> \<forall>ev \<in> set later. \<not> fetch_cmd (ev_cmd ev) \<Longrightarrow>
   incremental_run cursor (tr @ later)"
  by (induction cursor tr rule: incremental_run.induct) auto

lemma not_fetch_cmd: "set_cmd c \<or> scan_del_cmd c \<Longrightarrow> \<not> fetch_cmd c"
  by (cases c) simp_all

lemma sync_fetch_shape:
  assumes "sync_fetch srv shouldReset w = (r, w', tr0)"
  shows "truthy shouldReset \<Longrightarrow> initial_run tr0"
    and "\<not> truthy shouldReset \<Longrightarrow>
           (case tr0 of
              [] \<Rightarrow> False
            | ev # rest \<Rightarrow>
                ev_cmd ev = HGET ''redis-contentful'' ''nextSyncToken''
                \<and> (case ev_reply ev of
                     Inl e \<Rightarrow> rest = [] \<and> r = Inl e
                   | Inr cursor \<Rightarrow>
                       if truthy cursor then incremental_run cursor rest
                       else initial_run rest))"
  using assms
  by (auto simp: sync_fetch_def bind_act_def call_def ret_def
           split: if_splits prod.splits sum.splits)

lemma sync_trace_split:
  assumes "sync cfg stringify srv shouldReset w = (res, w', tr)"
  obtains r w0 tr0 later where
    "sync_fetch srv shouldReset w = (r, w0, tr0)" "tr = tr0 @ later"
    "\<forall>ev \<in> set later. \<not> fetch_cmd (ev_cmd ev)" "(\<exists>e. r = Inl e) \<longrightarrow> later = []"
  using assms
proof (cases rule: sync_cases)
  case (fetch_failed e)
  show ?thesis by (rule that [OF fetch_failed(1), of "[]"]) simp_all
next
  case (entries_failed response w0 tr0 e tr1)
  from sync_entries_events [OF entries_failed(2)]
  have "\<forall>ev \<in> set tr1. \<not> fetch_cmd (ev_cmd ev)"
    by (auto dest: not_fetch_cmd [OF disjI1])
  with that [OF entries_failed(1,3)] show ?thesis by simp
next
  case (deleted_failed response w0 tr0 ps1 w1 tr1 e tr2)
  from sync_entries_events [OF deleted_failed(2)]
  have "\<forall>ev \<in> set tr1. \<not> fetch_cmd (ev_cmd ev)"
    by (auto dest: not_fetch_cmd [OF disjI1])
  moreover from sync_deleted_facts [OF deleted_failed(3)]
  have "\<forall>ev \<in> set tr2. \<not> fetch_cmd (ev_cmd ev)"
    by (auto dest: not_fetch_cmd [OF disjI2])
  ultimately have "\<forall>ev \<in> set (tr1 @ tr2). \<not> fetch_cmd (ev_cmd ev)" by auto
  with that [OF deleted_failed(1,4)] show ?thesis by simp
next
  case (persisted response w0 tr0 ps1 w1 tr1 ps2 w2 tr2 rh)
  from sync_entries_events [OF persisted(2)]
  have "\<forall>ev \<in> set tr1. \<not> fetch_cmd (ev_cmd ev)"
    by (auto dest: not_fetch_cmd [OF disjI1])
  moreover from sync_deleted_facts [OF persisted(3)]
  have "\<forall>ev \<in> set tr2. \<not> fetch_cmd (ev_cmd ev)"
    by (auto dest: not_fetch_cmd [OF disjI2])
  ultimately have "\<forall>ev \<in> set (tr1 @ tr2 @ [Ev (HSET ''redis-contentful'' ''nextSyncToken'' (js_prop response ''nextSyncToken'')) rh]). \<not> fetch_cmd (ev_cmd ev)"
    by auto
  with that [OF persisted(1,5)] show ?thesis by simp
qed

text \<open>
C3.  With a truthy \<open>shouldReset\<close> a run of \<open>sync\<close> does not read the cursor: it begins
  with the initial fetch, followed at once by the wipe when the fetch resolves.  Otherwise
  it begins by reading the cursor; when there is none (the reply is falsy) it goes on as an
  initial sync does, and when there is one it fetches with that cursor and never wipes.
\<close>

theorem sync_mode:
  assumes "sync cfg stringify srv shouldReset w = (res, w', tr)"
  shows "(truthy shouldReset \<longrightarrow> initial_run tr)
       \<and> (\<not> truthy shouldReset \<longrightarrow>
            (case tr of
               [] \<Rightarrow> False
             | ev # rest \<Rightarrow>
                 ev_cmd ev = HGET ''redis-contentful'' ''nextSyncToken''
                 \<and> (case ev_reply ev of
                      Inl e \<Rightarrow> rest = []
                    | Inr cursor \<Rightarrow>
                        if truthy cursor then incremental_run cursor rest
                        else initial_run rest)))"
  using assms
proof (cases rule: sync_trace_split)
  case (1 r w0 tr0 later)
  show ?thesis
  proof (intro conjI impI)
    assume "truthy shouldReset"
    from sync_fetch_shape(1) [OF 1(1) this] show "initial_run tr"
      unfolding 1(2) by (rule initial_run_append)
  next
    assume "\<not> truthy shouldReset"
    from sync_fetch_shape(2) [OF 1(1) this]
    show "case tr of
               [] \<Rightarrow> False
             | ev # rest \<Rightarrow>
                 ev_cmd ev = HGET ''redis-contentful'' ''nextSyncToken''
                 \<and> (case ev_reply ev of
                      Inl e \<Rightarrow> rest = []
                    | Inr cursor \<Rightarrow>
                        if truthy cursor then incremental_run cursor rest
                        else initial_run rest)"
    proof (cases tr0)
      case Nil
      with \<open>case tr0 of [] \<Rightarrow> False | ev # rest \<Rightarrow> _ ev rest\<close> show ?thesis by simp
    next
      case (Cons ev rest)
      show ?thesis
      proof (cases "ev_reply ev")
        case (Inl e)
        with Cons sync_fetch_shape(2) [OF 1(1) \<open>\<not> truthy shouldReset\<close>] 1(2,4)
        show ?thesis by simp
      next
        case (Inr cursor)
        show ?thesis
        proof (cases "truthy cursor")
          case True
          with Inr Cons sync_fetch_shape(2) [OF 1(1) \<open>\<not> truthy shouldReset\<close>]
            incremental_run_append [OF _ 1(3), of cursor rest] 1(2)
          show ?thesis by simp
        next
          case False
          with Inr Cons sync_fetch_shape(2) [OF 1(1) \<open>\<not> truthy shouldReset\<close>]
            initial_run_append [of rest later] 1(2)
          show ?thesis by simp
        qed
      qed
    qed
  qed
qed

lemma example_run:
  "sync example_cfg (\<lambda>v. v) mem_srv (JBool False) example_world
     = (Inl (Wrapped (Rejected ''wrong number of arguments'')), example_world_after, example_trace)"
  by code_simp

lemma numbered_run:
  "sync numbered_cfg (\<lambda>v. v) mem_srv (JBool True) numbered_world
     = (Inr (JObj [(''message'', JStr ''Sync Complete'')]),
        numbered_world\<lparr>kv := [(''post::E1'', numbered_flat)],
                        hashes := [((''redis-contentful'', ''nextSyncToken''), JStr ''t1'')]\<rparr>,
        numbered_trace)"
  by code_simp

text \<open>
The key \<open>post:Hi:E1\<close> written by the run on the example data.
\<close>

theorem sync_cache_key_witness:
  "\<exists>a response entry.
           Ev (CFSYNC a) (Inr response) \<in> set example_trace
         \<and> entry \<in> set (elems (js_prop response ''entries''))
         \<and> ''post:Hi:E1''
             = to_string (js_prop (js_prop (js_prop (js_prop entry ''sys'') ''contentType'') ''sys'') ''id'')
               @ '':''
               @ (if truthy (js_prop entry ''fields'')
                     \<and> truthy (js_prop (js_prop entry ''fields'') (cf_identifier example_cfg))
                     \<and> truthy (js_prop (js_prop (js_prop entry ''fields'') (cf_identifier example_cfg))
                                        (cf_locale example_cfg))
                  then to_string (js_prop (js_prop (js_prop entry ''fields'') (cf_identifier example_cfg))
                                          (cf_locale example_cfg))
                  else [])
               @ '':'' @ to_string (js_prop (js_prop entry ''sys'') ''id'')"
  by (rule sync_cache_key [OF example_run, of _ post_flat "Inr (JStr ''OK'')"])
     (simp add: example_trace_def)

text \<open>
C1 as stated fails: the identifier field \<open>order\<close> of the entry has the localized value
  \<open>0\<close>, which is present, and the key written is \<open>post::E1\<close>, not \<open>post:0:E1\<close>.
\<close>

theorem sync_zero_identifier_counterexample:
  "\<not> (\<forall>key val rp.
         Ev (SET key val) rp
           \<in> set (snd (snd (sync numbered_cfg (\<lambda>v. v) mem_srv (JBool True) numbered_world)))
         \<longrightarrow> (\<exists>entry \<in> set (elems (js_prop (remote numbered_world) ''entries'')).
                key = to_string (js_prop (js_prop (js_prop (js_prop entry ''sys'') ''contentType'') ''sys'') ''id'')
                      @ '':''
                      @ (if js_prop (js_prop (js_prop entry ''fields'') (cf_identifier numbered_cfg))
                                    (cf_locale numbered_cfg) = JUndefined
                         then []
                         else to_string (js_prop (js_prop (js_prop entry ''fields'')
                                                    (cf_identifier numbered_cfg))
                                           (cf_locale numbered_cfg)))
                      @ '':'' @ to_string (js_prop (js_prop entry ''sys'') ''id'')))"
proof
  assume a: "\<forall>key val rp.
         Ev (SET key val) rp
           \<in> set (snd (snd (sync numbered_cfg (\<lambda>v. v) mem_srv (JBool True) numbered_world)))
         \<longrightarrow> (\<exists>entry \<in> set (elems (js_prop (remote numbered_world) ''entries'')).
                key = to_string (js_prop (js_prop (js_prop (js_prop entry ''sys'') ''contentType'') ''sys'') ''id'')
                      @ '':''
                      @ (if js_prop (js_prop (js_prop entry ''fields'') (cf_identifier numbered_cfg))
                                    (cf_locale numbered_cfg) = JUndefined
                         then []
                         else to_string (js_prop (js_prop (js_prop entry ''fields'')
                                                    (cf_identifier numbered_cfg))
                                           (cf_locale numbered_cfg)))
                      @ '':'' @ to_string (js_prop (js_prop entry ''sys'') ''id''))"
  have ev: "Ev (SET ''post::E1'' numbered_flat) (Inr (JStr ''OK''))
              \<in> set (snd (snd (sync numbered_cfg (\<lambda>v. v) mem_srv (JBool True) numbered_world)))"
    unfolding numbered_run by (simp add: numbered_trace_def)
  have entries: "elems (js_prop (remote numbered_world) ''entries'') = [numbered_post]"
    by code_simp
  have key: "to_string (js_prop (js_prop (js_prop (js_prop numbered_post ''sys'') ''contentType'') ''sys'') ''id'')
                      @ '':''
                      @ (if js_prop (js_prop (js_prop numbered_post ''fields'') (cf_identifier numbered_cfg))
                                    (cf_locale numbered_cfg) = JUndefined
                         then []
                         else to_string (js_prop (js_prop (js_prop numbered_post ''fields'')
                                                    (cf_identifier numbered_cfg))
                                           (cf_locale numbered_cfg)))
                      @ '':'' @ to_string (js_prop (js_prop numbered_post ''sys'') ''id'')
             = ''post:0:E1''"
    by code_simp
  from a [rule_format, OF ev] obtain entry where
    "entry \<in> set (elems (js_prop (remote numbered_world) ''entries''))"
    and k: "''post::E1''
              = to_string (js_prop (js_prop (js_prop (js_prop entry ''sys'') ''contentType'') ''sys'') ''id'')
                      @ '':''
                      @ (if js_prop (js_prop (js_prop entry ''fields'') (cf_identifier numbered_cfg))
                                    (cf_locale numbered_cfg) = JUndefined
                         then []
                         else to_string (js_prop (js_prop (js_prop entry ''fields'')
                                                    (cf_identifier numbered_cfg))
                                           (cf_locale numbered_cfg)))
                      @ '':'' @ to_string (js_prop (js_prop entry ''sys'') ''id'')"
    by blast
  then have "entry = numbered_post" unfolding entries by simp
  with k have "''post::E1'' = ''post:0:E1''" by (simp only: key)
  then show False by simp
qed

text \<open>
With the allow-list \<open>[post]\<close>, of a \<open>post\<close> and a \<open>page\<close> entry only the \<open>post\<close> is written.
\<close>

theorem sync_allow_list_witness:
  "map Inr (writes example_trace)
     = map (entry_write example_cfg (\<lambda>v. v))
         (if contentTypes example_cfg = [] then elems (js_prop example_delta ''entries'')
          else filter (\<lambda>entry. \<exists>n \<in> set (contentTypes example_cfg).
                                  entry_type_id entry = Inr (JStr n))
                 (elems (js_prop example_delta ''entries'')))
   \<and> writes example_trace = [(''post:Hi:E1'', post_flat)]
   \<and> length (elems (js_prop example_delta ''entries'')) = 2"
proof -
  have "map Inr (writes example_trace)
     = map (entry_write example_cfg (\<lambda>v. v))
         (if contentTypes example_cfg = [] then elems (js_prop example_delta ''entries'')
          else filter (\<lambda>entry. \<exists>n \<in> set (contentTypes example_cfg).
                                  entry_type_id entry = Inr (JStr n))
                 (elems (js_prop example_delta ''entries'')))"
    by (rule sync_allow_list [OF example_run]) (simp_all add: example_trace_def)
  moreover have "writes example_trace = [(''post:Hi:E1'', post_flat)]"
    by (simp add: example_trace_def projections_Cons)
  moreover have "length (elems (js_prop example_delta ''entries'')) = 2"
    by code_simp
  ultimately show ?thesis by blast
qed

text \<open>
The two deleted entries of the example data: two scans, and a delete for each page.
\<close>

theorem sync_deletion_scan_witness:
  "scans example_trace
     = map (\<lambda>entry. [''0'', ''MATCH'',
                      ''*:*:'' @ to_string (js_prop (js_prop entry ''sys'') ''id'')])
         (elems (js_prop example_delta ''deletedEntries''))
   \<and> deletes example_trace = filter truthy (pages example_trace)
   \<and> deletes example_trace = [JArr [JStr ''post:Old:E9''] [], JArr [] []]"
proof -
  have "scans example_trace
     = map (\<lambda>entry. [''0'', ''MATCH'',
                      ''*:*:'' @ to_string (js_prop (js_prop entry ''sys'') ''id'')])
         (elems (js_prop example_delta ''deletedEntries''))
   \<and> deletes example_trace = filter truthy (pages example_trace)"
    by (rule sync_deletion_scan [OF example_run]) (simp_all add: example_trace_def)
  moreover have "deletes example_trace = [JArr [JStr ''post:Old:E9''] [], JArr [] []]"
    by (simp add: example_trace_def projections_Cons)
  ultimately show ?thesis by blast
qed

text \<open>
The scan for the entry \<open>E8\<close>, for which the store holds no key.
\<close>

theorem sync_deletes_empty_page_witness:
  "Suc 5 < length example_trace \<and> ev_cmd (example_trace ! Suc 5) = DEL (JArr [] [])"
  by (rule sync_deletes_empty_page [OF example_run, of 5 "[''0'', ''MATCH'', ''*:*:E8'']"
                                       "JArr [JStr ''0'', JArr [] []] []"])
     (simp_all add: example_trace_def, code_simp)

text \<open>
Such a run exists: on the example data the delete of an empty page is rejected, the call
  fails, and the store holds the cursor \<open>t1\<close> where it held \<open>t0\<close>.
\<close>

theorem sync_cursor_before_await_witness:
  "((\<exists>e. (Inl (Wrapped (Rejected ''wrong number of arguments'')) :: exn + jsval) = Inl (Wrapped e))
    \<and> (\<exists>a response. Ev (CFSYNC a) (Inr response) \<in> set example_trace
                     \<and> JStr ''t1'' = js_prop response ''nextSyncToken'')
    \<and> ''redis-contentful'' = ''redis-contentful'' \<and> ''nextSyncToken'' = ''nextSyncToken''
    \<and> last example_trace
        = Ev (HSET ''redis-contentful'' ''nextSyncToken'' (JStr ''t1'')) (Inr (JNum 1)))
   \<and> map_of (hashes example_world) (''redis-contentful'', ''nextSyncToken'') = Some (JStr ''t0'')
   \<and> map_of (hashes example_world_after) (''redis-contentful'', ''nextSyncToken'')
       = Some (JStr ''t1'')"
proof -
  have "(\<exists>e. (Inl (Wrapped (Rejected ''wrong number of arguments'')) :: exn + jsval) = Inl (Wrapped e))
    \<and> (\<exists>a response. Ev (CFSYNC a) (Inr response) \<in> set example_trace
                     \<and> JStr ''t1'' = js_prop response ''nextSyncToken'')
    \<and> ''redis-contentful'' = ''redis-contentful'' \<and> ''nextSyncToken'' = ''nextSyncToken''
    \<and> last example_trace
        = Ev (HSET ''redis-contentful'' ''nextSyncToken'' (JStr ''t1'')) (Inr (JNum 1))"
    by (rule sync_cursor_before_await
               [OF example_run, of "DEL (JArr [] [])" "Rejected ''wrong number of arguments''"])
       (simp_all add: example_trace_def)
  moreover have "map_of (hashes example_world) (''redis-contentful'', ''nextSyncToken'') = Some (JStr ''t0'')"
    by (simp add: example_world_def)
  moreover have "map_of (hashes example_world_after) (''redis-contentful'', ''nextSyncToken'')
       = Some (JStr ''t1'')"
    by (simp add: example_world_after_def)
  ultimately show ?thesis by blast
qed

text \<open>
A forced reset on the second example, and an incremental run from the cursor \<open>t0\<close> on
  the first.
\<close>

theorem sync_mode_witness:
  "initial_run numbered_trace \<and> incremental_run (JStr ''t0'') (tl example_trace)"
proof -
  from sync_mode [OF numbered_run] have "initial_run numbered_trace" by simp
  moreover from sync_mode [OF example_run]
  have "incremental_run (JStr ''t0'') (tl example_trace)"
    by (simp add: example_trace_def)
  ultimately show ?thesis by blast
qed

lemma for_each_dispatch:
  assumes "for_each (\<lambda>x. dispatch srv (c x)) xs w = (r, w', tr)"
  shows "map ev_cmd tr = map c xs \<and> r = Inr (map ev_reply tr)"
  using assms
proof (induction xs arbitrary: w r w' tr)
  case Nil
  then show ?case by simp
next
  case (Cons x xs)
  from Cons.prems [unfolded for_each.simps] show ?case
  proof (cases rule: bind_act_cases)
    case (thrown e)
    then show ?thesis by (simp add: dispatch_eq)
  next
    case (continued p w1 tr1 tr2)
    then have tr1: "tr1 = [Ev (c x) p]" by (auto simp: dispatch_eq)
    from continued(2) show ?thesis
    proof (cases rule: bind_act_cases)
      case (thrown e)
      with Cons.IH [OF thrown(1)] show ?thesis by simp
    next
      case (continued ys w2 tr3 tr4)
      with Cons.IH [OF continued(1)] tr1 \<open>tr = tr1 @ tr2\<close> show ?thesis by simp
    qed
  qed
qed

lemma scan_events:
  assumes "map ev_cmd tr = map (\<lambda>x. SCAN (g x)) xs"
  shows "scans tr = map g xs \<and> reads tr = [] \<and> writes tr = [] \<and> deletes tr = []"
  using assms
proof (induction tr arbitrary: xs)
  case Nil
  then show ?case by simp
next
  case (Cons ev tr)
  then obtain x xs' where xs: "xs = x # xs'" by (cases xs) auto
  obtain c r where ev: "ev = Ev c r" by (cases ev)
  with Cons.prems xs have "c = SCAN (g x)" "map ev_cmd tr = map (\<lambda>x. SCAN (g x)) xs'"
    by simp_all
  with Cons.IH [of xs'] xs ev show ?case by (simp add: projections_Cons)
qed

lemma scan_events_pages:
  assumes "map ev_cmd tr = map (\<lambda>x. SCAN (g x)) xs" and "map ev_reply tr = map Inr rs"
  shows "pages tr = map (\<lambda>r. js_prop r ''1'') rs"
  using assms
proof (induction tr arbitrary: xs rs)
  case Nil
  then show ?case by simp
next
  case (Cons ev tr)
  then obtain x xs' r rs' where xs: "xs = x # xs'" "rs = r # rs'" by (cases xs; cases rs) auto
  obtain c p where ev: "ev = Ev c p" by (cases ev)
  with Cons.prems xs have "c = SCAN (g x)" "p = Inr r"
    "map ev_cmd tr = map (\<lambda>x. SCAN (g x)) xs'" "map ev_reply tr = map Inr rs'"
    by simp_all
  with Cons.IH [of xs' rs'] xs ev show ?case by (simp add: projections_Cons)
qed

lemma get_events:
  assumes "map ev_cmd tr = map GET ks"
  shows "scans tr = [] \<and> pages tr = [] \<and> reads tr = ks"
  using assms
proof (induction tr arbitrary: ks)
  case Nil
  then show ?case by simp
next
  case (Cons ev tr)
  then obtain k ks' where ks: "ks = k # ks'" by (cases ks) auto
  obtain c r where ev: "ev = Ev c r" by (cases ev)
  with Cons.prems ks have "c = GET k" "map ev_cmd tr = map GET ks'" by simp_all
  with Cons.IH [of ks'] ks ev show ?case by (simp add: projections_Cons)
qed

lemma is_array_truthy: "is_array v \<Longrightarrow> truthy v"
  by (cases v) simp_all

lemma scan_one_facts:
  assumes "scan_one srv pattern w = (r, w', tr)"
  shows "scans tr = [scan_args pattern]" "reads tr = []"
    and "r = Inr keys \<Longrightarrow> \<forall>p \<in> set (pages tr). is_array p \<Longrightarrow>
           is_array keys \<and> elems keys = concat (map elems (pages tr))"
proof -
  from assms [unfolded scan_one_def]
  have "scans tr = [scan_args pattern] \<and> reads tr = []
      \<and> (r = Inr keys \<longrightarrow> (\<forall>p \<in> set (pages tr). is_array p) \<longrightarrow>
           is_array keys \<and> elems keys = concat (map elems (pages tr)))"
  proof (cases rule: bind_act_cases)
    case (thrown e)
    then show ?thesis by (auto simp: call_eq projections_Cons)
  next
    case (continued response w1 tr1 tr2)
    then have tr1: "tr1 = [Ev (SCAN (scan_args pattern)) (Inr response)]"
      by (auto simp: call_eq)
    show ?thesis
    proof (cases "response = JUndefined \<or> response = JNull")
      case True
      with continued(2,3) tr1 show ?thesis by (auto simp: get_prop_def projections_Cons)
    next
      case False
      with continued(2,3) tr1 show ?thesis
        by (auto simp: get_prop_def projections_Cons dest: is_array_truthy)
    qed
  qed
  then show "scans tr = [scan_args pattern]" "reads tr = []"
    and "r = Inr keys \<Longrightarrow> \<forall>p \<in> set (pages tr). is_array p \<Longrightarrow>
           is_array keys \<and> elems keys = concat (map elems (pages tr))"
    by blast+
qed

lemma sequence_err_get_prop:
  assumes "sequence_err (map (\<lambda>kr. get_prop kr k) rs) = Inr vs"
  shows "vs = map (\<lambda>r. js_prop r k) rs"
  using assms
  by (induction rs arbitrary: vs) (auto simp: get_prop_def split: sum.splits if_splits)

lemma sequence_err_Inr: "sequence_err rs = Inr xs \<Longrightarrow> rs = map Inr xs"
  by (induction rs arbitrary: xs) (auto split: sum.splits)

lemma concat_item_elems: "\<forall>p \<in> set ps. is_array p \<Longrightarrow> map concat_item ps = map elems ps"
  by (induction ps) (auto simp: concat_item_def)

lemma scan_types_facts:
  assumes "scan_types srv types search w = (r, w', tr)"
  shows "scans tr = map (\<lambda>t. scan_args (type_pattern t search)) types" "reads tr = []"
    and "r = Inr keys \<Longrightarrow> \<forall>p \<in> set (pages tr). is_array p \<Longrightarrow>
           is_array keys \<and> elems keys = concat (map elems (pages tr))"
    and "types = [] \<Longrightarrow> tr = [] \<and> r = Inr (JArr [] [])"
proof -
  from assms [unfolded scan_types_def]
  have "scans tr = map (\<lambda>t. scan_args (type_pattern t search)) types \<and> reads tr = []
      \<and> (r = Inr keys \<longrightarrow> (\<forall>p \<in> set (pages tr). is_array p) \<longrightarrow>
           is_array keys \<and> elems keys = concat (map elems (pages tr)))
      \<and> (types = [] \<longrightarrow> tr = [] \<and> r = Inr (JArr [] []))"
  proof (cases rule: bind_act_cases)
    case (thrown e)
    from for_each_dispatch [OF thrown(1)] thrown(2) show ?thesis by simp
  next
    case (continued keyPromises w1 tr1 tr2)
    from for_each_dispatch [OF continued(1)] have
      cmds: "map ev_cmd tr1 = map (\<lambda>t. SCAN (scan_args (type_pattern t search))) types"
      and proms: "keyPromises = map ev_reply tr1" by simp_all
    from continued(2) have tr2: "tr2 = []"
      by (cases "sequence_err keyPromises";
          cases "sequence_err (map (\<lambda>keyResponse. get_prop keyResponse ''1'')
                                (projr (sequence_err keyPromises)))")
         auto
    with continued(3) have tr: "tr = tr1" by simp
    have keys: "is_array keys \<and> elems keys = concat (map elems (pages tr))"
      if r: "r = Inr keys" and arr: "\<forall>p \<in> set (pages tr). is_array p"
    proof -
      from continued(2) r obtain keyResponses keysArray where
        a: "sequence_err keyPromises = Inr keyResponses"
        and b: "sequence_err (map (\<lambda>keyResponse. get_prop keyResponse ''1'') keyResponses)
                  = Inr keysArray"
        and c: "keys = JArr (concat (map concat_item keysArray)) []"
        by (cases "sequence_err keyPromises";
            cases "sequence_err (map (\<lambda>keyResponse. get_prop keyResponse ''1'')
                                  (projr (sequence_err keyPromises)))")
           auto
      from sequence_err_Inr [OF a] proms have "map ev_reply tr1 = map Inr keyResponses" by simp
      from scan_events_pages [OF cmds this] sequence_err_get_prop [OF b]
      have "pages tr1 = keysArray" by simp
      with arr tr c concat_item_elems [of keysArray] show ?thesis by simp
    qed
    have "types = [] \<longrightarrow> tr = [] \<and> r = Inr (JArr [] [])"
    proof
      assume "types = []"
      with cmds proms have "tr1 = []" "keyPromises = []" by simp_all
      with continued(2) tr show "tr = [] \<and> r = Inr (JArr [] [])" by simp
    qed
    with scan_events [OF cmds] tr keys show ?thesis by blast
  qed
  then show "scans tr = map (\<lambda>t. scan_args (type_pattern t search)) types" "reads tr = []"
    and "r = Inr keys \<Longrightarrow> \<forall>p \<in> set (pages tr). is_array p \<Longrightarrow>
           is_array keys \<and> elems keys = concat (map elems (pages tr))"
    and "types = [] \<Longrightarrow> tr = [] \<and> r = Inr (JArr [] [])"
    by blast+
qed

lemma resolve_keys_facts:
  assumes "resolve_keys srv details w = (r, w', tr)"
  shows "scans tr = map scan_args (scanned_patterns details)" "reads tr = []"
    and "r = Inr keys \<Longrightarrow> \<forall>p \<in> set (pages tr). is_array p \<Longrightarrow>
           is_array keys \<and> elems keys = concat (map elems (pages tr))"
    and "scanned_patterns details = [] \<Longrightarrow> tr = [] \<and> r = Inr (JArr [] [])"
proof -
  have "scans tr = map scan_args (scanned_patterns details) \<and> reads tr = []
      \<and> (r = Inr keys \<longrightarrow> (\<forall>p \<in> set (pages tr). is_array p) \<longrightarrow>
           is_array keys \<and> elems keys = concat (map elems (pages tr)))
      \<and> (scanned_patterns details = [] \<longrightarrow> tr = [] \<and> r = Inr (JArr [] []))"
  proof (cases "is_string details")
    case True
    with assms have "scan_one srv (to_string details @ '':*:*'') w = (r, w', tr)"
      by (simp add: resolve_keys_def)
    from scan_one_facts [OF this] True show ?thesis by (simp add: scanned_patterns_def)
  next
    case notstr: False
    show ?thesis
    proof (cases "is_array details")
      case True
      with notstr assms have
        "scan_types srv (elems details) (js_prop details ''search'') w = (r, w', tr)"
        by (simp add: resolve_keys_def)
      from scan_types_facts [OF this] True notstr show ?thesis
        by (simp add: scanned_patterns_def)
    next
      case notarr: False
      show ?thesis
      proof (cases "is_object details")
        case False
        with notstr notarr assms show ?thesis
          by (auto simp: resolve_keys_def scanned_patterns_def)
      next
        case obj: True
        show ?thesis
        proof (cases "is_string (js_prop details ''type'')")
          case True
          with notstr notarr obj assms have
            "scan_one srv (type_pattern (js_prop details ''type'') (js_prop details ''search'')) w
               = (r, w', tr)"
            by (simp add: resolve_keys_def)
          from scan_one_facts [OF this] True notstr notarr obj show ?thesis
            by (simp add: scanned_patterns_def)
        next
          case tnotstr: False
          show ?thesis
          proof (cases "is_array (js_prop details ''type'')")
            case True
            with tnotstr notstr notarr obj assms have
              "scan_types srv (elems (js_prop details ''type'')) (js_prop details ''search'') w
                 = (r, w', tr)"
              by (simp add: resolve_keys_def)
            from scan_types_facts [OF this] True tnotstr notstr notarr obj show ?thesis
              by (simp add: scanned_patterns_def)
          next
            case False
            with tnotstr notstr notarr obj assms show ?thesis
              by (auto simp: resolve_keys_def scanned_patterns_def)
          qed
        qed
      qed
    qed
  qed
  then show "scans tr = map scan_args (scanned_patterns details)" "reads tr = []"
    and "r = Inr keys \<Longrightarrow> \<forall>p \<in> set (pages tr). is_array p \<Longrightarrow>
           is_array keys \<and> elems keys = concat (map elems (pages tr))"
    and "scanned_patterns details = [] \<Longrightarrow> tr = [] \<and> r = Inr (JArr [] [])"
    by blast+
qed

lemma get_cases:
  assumes "get parse srv details w = (res, w', tr)"
  obtains
    (no_keys) e where "resolve_keys srv details w = (Inl e, w', tr)" "res = Inl e"
  | (bad_keys) keys where "resolve_keys srv details w = (Inr keys, w', tr)"
      "\<not> is_array keys" "res = Inl TypeError"
  | (fetched) keys w1 trs trg where "resolve_keys srv details w = (Inr keys, w1, trs)"
      "is_array keys" "tr = trs @ trg" "map ev_cmd trg = map GET (elems keys)"
      "res = (case sequence_err (map ev_reply trg) of
                Inl e \<Rightarrow> Inl e
              | Inr responses \<Rightarrow>
                  (case group_loop parse (zip (elems keys) responses) [] of
                     Inl e \<Rightarrow> Inl e
                   | Inr final \<Rightarrow> Inr (JObj final)))"
  using assms [unfolded get_def]
proof (cases rule: bind_act_cases)
  case (thrown e)
  with no_keys show ?thesis by simp
next
  case (continued keys w1 trs tr2)
  show ?thesis
  proof (cases "is_array keys")
    case False
    with continued bad_keys show ?thesis by simp
  next
    case True
    with continued(2) have
      "bind_act (for_each (\<lambda>key. dispatch srv (GET key)) (elems keys))
              (\<lambda>promises.
                 bind_act (lift (sequence_err promises))
                   (\<lambda>responses.
                      bind_act (lift (group_loop parse (zip (elems keys) responses) []))
                        (\<lambda>final. ret (JObj final)))) w1 = (res, w', tr2)"
      by simp
    then show ?thesis
    proof (cases rule: bind_act_cases)
      case (thrown e)
      from for_each_dispatch [OF thrown(1)] thrown(2) show ?thesis by simp
    next
      case inner: (continued promises w2 trg tr3)
      from for_each_dispatch [OF inner(1)] have
        cmds: "map ev_cmd trg = map GET (elems keys)" and p: "promises = map ev_reply trg"
        by simp_all
      from inner(2) have tr3: "tr3 = []" and
        res: "res = (case sequence_err promises of
                Inl e \<Rightarrow> Inl e
              | Inr responses \<Rightarrow>
                  (case group_loop parse (zip (elems keys) responses) [] of
                     Inl e \<Rightarrow> Inl e
                   | Inr final \<Rightarrow> Inr (JObj final)))"
        by (cases "sequence_err promises";
            cases "group_loop parse (zip (elems keys) (projr (sequence_err promises))) []";
            auto)+
      show ?thesis
        by (rule fetched [OF continued(1) True _ cmds])
           (use continued(3) inner(3) tr3 res p in simp_all)
    qed
  qed
qed

lemma get_scans:
  assumes "get parse srv details w = (res, w', tr)"
  shows "scans tr = map scan_args (scanned_patterns details)
       \<and> (scanned_patterns details = [] \<longrightarrow> res = Inr (JObj []) \<and> tr = [])
       \<and> (\<forall>final. res = Inr final \<longrightarrow> (\<forall>p \<in> set (pages tr). is_array p) \<longrightarrow>
             reads tr = concat (map elems (pages tr)))"
  using assms
proof (cases rule: get_cases)
  case (no_keys e)
  from resolve_keys_facts(1,4) [OF no_keys(1)] no_keys(2) show ?thesis
    by auto
next
  case (bad_keys keys)
  from resolve_keys_facts(1,4) [OF bad_keys(1)] bad_keys(2,3) show ?thesis
    by auto
next
  case (fetched keys w1 trs trg)
  note rk = resolve_keys_facts [OF fetched(1)]
  from get_events [OF fetched(4)] have
    ge: "scans trg = []" "pages trg = []" "reads trg = elems keys" by simp_all
  have "scans tr = map scan_args (scanned_patterns details)"
    using rk(1) ge(1) fetched(3) by simp
  moreover have "res = Inr (JObj []) \<and> tr = []" if "scanned_patterns details = []"
  proof -
    from rk(4) [OF that] have "trs = []" "keys = JArr [] []" by simp_all
    with fetched(3,4,5) show ?thesis by simp
  qed
  moreover have "reads tr = concat (map elems (pages tr))"
    if "\<forall>p \<in> set (pages tr). is_array p"
  proof -
    from that fetched(3) ge(2) have "\<forall>p \<in> set (pages trs). is_array p" by simp
    from rk(3) [OF refl this] have "elems keys = concat (map elems (pages trs))" by simp
    with rk(2) ge(2,3) fetched(3) show ?thesis by simp
  qed
  ultimately show ?thesis by simp
qed

lemma scanned_patterns_query:
  "scanned_patterns details =
     (if is_object details \<and> \<not> is_array details \<and> is_string (js_prop details ''type'')
      then [or_star (js_prop details ''type'') @ '':''
              @ or_star (js_prop details ''search'') @ '':*'']
      else query_patterns details)"
  by (cases details) (simp_all add: scanned_patterns_def query_patterns_def type_pattern_def)

lemma scanned_patterns_Nil: "scanned_patterns details = [] \<longleftrightarrow> query_patterns details = []"
  by (cases details) (simp_all add: scanned_patterns_def query_patterns_def)

text \<open>
C5, as amended.  The scans that a run of \<open>get\<close> issues are exactly one per pattern of the
  query, in order, each from cursor \<open>0\<close> with the page-size hint \<open>10000\<close>.  The patterns
  are those of the specification: \<open>{type}:*:*\<close> for a string, and
  \<open>{type || '*'}:{search || '*'}:*\<close> for each element of an array (with the \<open>search\<close>
  property of the array) or of the array \<open>type\<close> of an object (with the \<open>search\<close> of the
  object); except for an object whose \<open>type\<close> is a string, where the one pattern is
  \<open>{type || '*'}:{search || '*'}:*\<close> and not \<open>{type}:*:*\<close>: the \<open>search\<close> of the
  object narrows the scan, and an empty name scans every type.  A query with no pattern
  issues no command and yields the empty mapping.  When the call resolves and the pages
  are arrays, the keys read are the concatenation of the pages; no cursor returned by a
  scan is ever used.
\<close>

theorem get_patterns:
  assumes "get parse srv details w = (res, w', tr)"
  shows "scans tr
           = map (\<lambda>pattern. [''0'', ''MATCH'', pattern, ''COUNT'', ''10000''])
               (if is_object details \<and> \<not> is_array details
                     \<and> is_string (js_prop details ''type'')
                then [or_star (js_prop details ''type'') @ '':''
                        @ or_star (js_prop details ''search'') @ '':*'']
                else query_patterns details)
       \<and> (query_patterns details = [] \<longrightarrow> res = Inr (JObj []) \<and> tr = [])
       \<and> (\<forall>final. res = Inr final \<longrightarrow> (\<forall>p \<in> set (pages tr). is_array p) \<longrightarrow>
             reads tr = concat (map elems (pages tr)))"
proof -
  note run = get_scans [OF assms]
  from run have "scans tr = map scan_args (scanned_patterns details)" by blast
  then have a: "scans tr
           = map (\<lambda>pattern. [''0'', ''MATCH'', pattern, ''COUNT'', ''10000''])
               (if is_object details \<and> \<not> is_array details
                     \<and> is_string (js_prop details ''type'')
                then [or_star (js_prop details ''type'') @ '':''
                        @ or_star (js_prop details ''search'') @ '':*'']
                else query_patterns details)"
    unfolding scanned_patterns_query scan_args_def [abs_def] .
  from run have b: "query_patterns details = [] \<longrightarrow> res = Inr (JObj []) \<and> tr = []"
    unfolding scanned_patterns_Nil by blast
  from run have c: "\<forall>final. res = Inr final \<longrightarrow> (\<forall>p \<in> set (pages tr). is_array p) \<longrightarrow>
             reads tr = concat (map elems (pages tr))"
    by blast
  from a b c show ?thesis by blast
qed

lemma fetched_append [simp]: "fetched (a @ b) = fetched a @ fetched b"
  by (simp add: fetched_def)

lemma fetched_Nil [simp]: "fetched [] = []"
  by (simp add: fetched_def)

lemma fetched_Cons:
  "fetched (Ev c r # tr)
     = (case c of
          GET k \<Rightarrow> (case k of JStr s \<Rightarrow> (case r of Inr v \<Rightarrow> [(s, v)] | Inl e \<Rightarrow> []) | _ \<Rightarrow> [])
        | _ \<Rightarrow> []) @ fetched tr"
  by (cases c) (simp_all add: fetched_def split: jsval.splits)

lemma fetched_scans: "reads tr = [] \<Longrightarrow> fetched tr = []"
proof (induction tr)
  case Nil
  then show ?case by simp
next
  case (Cons ev tr)
  obtain c r where ev: "ev = Ev c r" by (cases ev)
  with Cons show ?case by (cases c) (simp_all add: projections_Cons fetched_Cons)
qed

lemma fetched_gets:
  assumes "map ev_cmd tr = map GET (map JStr ks)" and "map ev_reply tr = map Inr rs"
  shows "fetched tr = zip ks rs"
  using assms
proof (induction tr arbitrary: ks rs)
  case Nil
  then show ?case by simp
next
  case (Cons ev tr)
  then obtain k ks' r rs' where l: "ks = k # ks'" "rs = r # rs'" by (cases ks; cases rs) auto
  obtain c p where ev: "ev = Ev c p" by (cases ev)
  with Cons.prems l have "c = GET (JStr k)" "p = Inr r"
    "map ev_cmd tr = map GET (map JStr ks')" "map ev_reply tr = map Inr rs'"
    by simp_all
  with Cons.IH [of ks' rs'] l ev show ?case by (simp add: fetched_Cons)
qed

lemma group_loop_spec:
  assumes "group_loop parse kvs acc = Inr out"
  shows "\<exists>ks vs. map fst kvs = map JStr ks \<and> map Inr vs = map (\<lambda>kv. parse (snd kv)) kvs
           \<and> (\<forall>t. map_of out t
                    = grouped (map_of acc t)
                        (map snd (filter (\<lambda>p. parseType (fst p) = t) (zip ks vs))))"
  using assms
proof (induction kvs arbitrary: acc)
  case Nil
  then show ?case by (simp add: grouped_def)
next
  case (Cons kv kvs)
  obtain key response where kv: "kv = (key, response)" by (cases kv)
  from Cons.prems kv obtain k where key: "key = JStr k"
    by (cases key) simp_all
  from Cons.prems kv key obtain v where v: "parse response = Inr v"
    by (cases "parse response"; cases "map_of acc (parseType k)") simp_all
  define acc' where
    "acc' = obj_put (parseType k)
              (JArr ((case map_of acc (parseType k) of None \<Rightarrow> [] | Some a \<Rightarrow> elems a) @ [v]) [])
              acc"
  from Cons.prems kv key v have rest: "group_loop parse kvs acc' = Inr out"
    by (cases "map_of acc (parseType k)") (simp_all add: acc'_def split: if_splits)
  from Cons.IH [OF rest] obtain ks vs where
    ks: "map fst kvs = map JStr ks" and vs: "map Inr vs = map (\<lambda>kv. parse (snd kv)) kvs"
    and out: "\<And>t. map_of out t
                    = grouped (map_of acc' t)
                        (map snd (filter (\<lambda>p. parseType (fst p) = t) (zip ks vs)))"
    by blast
  have "map_of out t
          = grouped (map_of acc t)
              (map snd (filter (\<lambda>p. parseType (fst p) = t) (zip (k # ks) (v # vs))))" for t
    unfolding out [of t] acc'_def
    by (cases "map_of acc t") (simp_all add: map_of_obj_put grouped_def)
  moreover have "map fst (kv # kvs) = map JStr (k # ks)" using ks kv key by simp
  moreover have "map Inr (v # vs) = map (\<lambda>kv. parse (snd kv)) (kv # kvs)"
    using vs kv v by simp
  ultimately show ?case by blast
qed

lemma filter_zip_parsed:
  assumes "length ks = length vs" and "map Inr vs = map parse rs"
  shows "map Inr (map snd (filter (\<lambda>p. P (fst p)) (zip ks vs)))
           = map (\<lambda>kr. parse (snd kr)) (filter (\<lambda>kr. P (fst kr)) (zip ks rs))"
  using assms
proof (induction ks vs arbitrary: rs rule: list_induct2)
  case Nil
  then show ?case by simp
next
  case (Cons k ks v vs)
  then obtain r rs' where "rs = r # rs'" by (cases rs) auto
  with Cons show ?case by auto
qed

text \<open>
C6.  When \<open>get\<close> resolves, the mapping it returns holds under each type name the parsed
  values of the keys read whose part before the first colon is that name, in the order
  read, and nothing under any other name; its keys are exactly the types of the keys read.
\<close>

theorem get_groups_by_type:
  assumes "get parse srv details w = (Inr final, w', tr)"
  shows "(\<forall>t. \<exists>vs. map Inr vs
                     = map (\<lambda>kr. parse (snd kr))
                         (filter (\<lambda>kr. parseType (fst kr) = t) (fetched tr))
                  \<and> js_prop final t = (if vs = [] then JUndefined else JArr vs []))
       \<and> set (object_keys final) = (\<lambda>kr. parseType (fst kr)) ` set (fetched tr)"
  using assms
proof (cases rule: get_cases)
  case (fetched keys w1 trs trg)
  from fetched(5) obtain responses out where
    seq: "sequence_err (map ev_reply trg) = Inr responses"
    and grp: "group_loop parse (zip (elems keys) responses) [] = Inr out"
    and final: "final = JObj out"
    by (cases "sequence_err (map ev_reply trg)";
        cases "group_loop parse (zip (elems keys) (projr (sequence_err (map ev_reply trg)))) []")
       auto
  from sequence_err_Inr [OF seq] have replies: "map ev_reply trg = map Inr responses" .
  then have "length trg = length responses" by (metis length_map)
  moreover from fetched(4) have "length trg = length (elems keys)" by (metis length_map)
  ultimately have len: "length (elems keys) = length responses" by simp
  from group_loop_spec [OF grp] obtain ks vs where
    ks: "map fst (zip (elems keys) responses) = map JStr ks"
    and vs: "map Inr vs = map (\<lambda>kv. parse (snd kv)) (zip (elems keys) responses)"
    and out: "\<And>t. map_of out t
                    = grouped None (map snd (filter (\<lambda>p. parseType (fst p) = t) (zip ks vs)))"
    by auto
  from ks len have keys: "elems keys = map JStr ks" by simp
  have "map parse (map snd (zip (elems keys) responses)) = map parse responses"
    using len by (simp only: map_snd_zip)
  with vs have vs': "map Inr vs = map parse responses" by (simp add: comp_def)
  from keys len have lks: "length ks = length responses" by simp
  with vs' have lvs: "length ks = length vs" by (metis length_map)
  from resolve_keys_facts(2) [OF fetched(1)] have "fetched trs = []" by (rule fetched_scans)
  moreover from fetched(4) keys replies have "fetched trg = zip ks responses"
    by (simp add: fetched_gets)
  ultimately have ft: "fetched tr = zip ks responses" using fetched(3) by simp
  have one: "\<exists>ws. map Inr ws
                     = map (\<lambda>kr. parse (snd kr))
                         (filter (\<lambda>kr. parseType (fst kr) = t) (fetched tr))
                  \<and> js_prop final t = (if ws = [] then JUndefined else JArr ws [])" for t
  proof -
    define ws where "ws = map snd (filter (\<lambda>p. parseType (fst p) = t) (zip ks vs))"
    from filter_zip_parsed [OF lvs vs', of "\<lambda>k. parseType k = t"]
    have "map Inr ws
            = map (\<lambda>kr. parse (snd kr)) (filter (\<lambda>kr. parseType (fst kr) = t) (fetched tr))"
      unfolding ws_def ft by simp
    moreover have "js_prop final t = (if ws = [] then JUndefined else JArr ws [])"
      unfolding final using out [of t] by (simp add: lookup_def grouped_def ws_def)
    ultimately show ?thesis by blast
  qed
  have dom: "set (object_keys final) = (\<lambda>kr. parseType (fst kr)) ` set (fetched tr)"
  proof -
    have "t \<in> set (object_keys final) \<longleftrightarrow> t \<in> (\<lambda>kr. parseType (fst kr)) ` set (fetched tr)"
      for t
    proof -
      have "t \<in> set (object_keys final) \<longleftrightarrow> map_of out t \<noteq> None"
        unfolding final by (simp add: object_keys_def map_of_eq_None_iff)
      also have "\<dots> \<longleftrightarrow> filter (\<lambda>p. parseType (fst p) = t) (zip ks vs) \<noteq> []"
        unfolding out [of t] by (simp add: grouped_def)
      also have "\<dots> \<longleftrightarrow> (\<exists>p \<in> set (zip ks vs). parseType (fst p) = t)"
        by (simp add: filter_empty_conv)
      also have "\<dots> \<longleftrightarrow> (\<exists>k \<in> set ks. parseType k = t)"
        using lvs by (metis (no_types, lifting) map_fst_zip image_iff list.set_map)
      also have "\<dots> \<longleftrightarrow> (\<exists>p \<in> set (zip ks responses). parseType (fst p) = t)"
        using lks by (metis (no_types, lifting) map_fst_zip image_iff list.set_map)
      also have "\<dots> \<longleftrightarrow> t \<in> (\<lambda>kr. parseType (fst kr)) ` set (fetched tr)"
        unfolding ft by auto
      finally show ?thesis .
    qed
    then show ?thesis by blast
  qed
  from one dom show ?thesis by blast
qed simp_all

lemma library_get: "fst (get Inr mem_srv library_query stocked_world) = Inr library_result"
  by code_simp

lemma library_pages:
  "\<forall>p \<in> set (pages (snd (snd (get Inr mem_srv library_query stocked_world)))). is_array p"
  by code_simp

lemma filter_get:
  "fst (get Inr mem_srv filter_query stocked_world)
     = Inr (JObj [(''post'', JArr [flat_of ''E1'' ''post'' ''Hi''] [])])"
  by code_simp

lemma post_get:
  "fst (get Inr mem_srv (JStr ''post'') stocked_world)
     = Inr (JObj [(''post'', JArr [flat_of ''E1'' ''post'' ''Hi'',
                                   flat_of ''E2'' ''post'' ''Yo''] [])])"
  by code_simp

text \<open>
The queries \<open>[post, author]\<close>, \<open>5\<close>, \<open>{type: 'post', search: 'Hi'}\<close> and \<open>{type: ''}\<close> on
  the stocked store.
\<close>

theorem get_patterns_witness:
  "scans (snd (snd (get Inr mem_srv library_query stocked_world)))
     = map (\<lambda>pattern. [''0'', ''MATCH'', pattern, ''COUNT'', ''10000''])
         (query_patterns library_query)
   \<and> query_patterns library_query = [''post:*:*'', ''author:*:*'']
   \<and> reads (snd (snd (get Inr mem_srv library_query stocked_world)))
       = concat (map elems (pages (snd (snd (get Inr mem_srv library_query stocked_world)))))
   \<and> query_patterns (JNum 5) = []
   \<and> fst (get Inr mem_srv (JNum 5) stocked_world) = Inr (JObj [])
   \<and> snd (snd (get Inr mem_srv (JNum 5) stocked_world)) = []
   \<and> scans (snd (snd (get Inr mem_srv filter_query stocked_world)))
       = [[''0'', ''MATCH'', ''post:Hi:*'', ''COUNT'', ''10000'']]
   \<and> scans (snd (snd (get Inr mem_srv unnamed_query stocked_world)))
       = [[''0'', ''MATCH'', ''*:*:*'', ''COUNT'', ''10000'']]"
proof -
  have run: "get Inr mem_srv library_query stocked_world
               = (Inr library_result, fst (snd (get Inr mem_srv library_query stocked_world)),
                  snd (snd (get Inr mem_srv library_query stocked_world)))"
    unfolding library_get [symmetric] by simp
  have other: "get Inr mem_srv q stocked_world
               = (fst (get Inr mem_srv q stocked_world),
                  fst (snd (get Inr mem_srv q stocked_world)),
                  snd (snd (get Inr mem_srv q stocked_world)))" for q
    by simp
  have none: "query_patterns (JNum 5) = []" by (simp add: query_patterns_def)
  have two: "query_patterns library_query = [''post:*:*'', ''author:*:*'']"
    by code_simp
  have arr: "is_array library_query" by (simp add: library_query_def)
  have a: "scans (snd (snd (get Inr mem_srv library_query stocked_world)))
             = map (\<lambda>pattern. [''0'', ''MATCH'', pattern, ''COUNT'', ''10000''])
                 (query_patterns library_query)"
    and b: "reads (snd (snd (get Inr mem_srv library_query stocked_world)))
       = concat (map elems (pages (snd (snd (get Inr mem_srv library_query stocked_world)))))"
    using get_patterns [OF run] library_pages arr by simp_all
  have c: "fst (get Inr mem_srv (JNum 5) stocked_world) = Inr (JObj [])
           \<and> snd (snd (get Inr mem_srv (JNum 5) stocked_world)) = []"
    using get_patterns [OF other [of "JNum 5"]] none by simp
  have d: "scans (snd (snd (get Inr mem_srv filter_query stocked_world)))
             = [[''0'', ''MATCH'', ''post:Hi:*'', ''COUNT'', ''10000'']]"
    using get_patterns [OF other [of filter_query]]
    by (simp add: filter_query_def or_star_def lookup_def)
  have e: "scans (snd (snd (get Inr mem_srv unnamed_query stocked_world)))
             = [[''0'', ''MATCH'', ''*:*:*'', ''COUNT'', ''10000'']]"
    using get_patterns [OF other [of unnamed_query]]
    by (simp add: unnamed_query_def or_star_def lookup_def)
  from a two b none c d e show ?thesis by simp
qed

text \<open>
C5 as stated fails for an object whose \<open>type\<close> is a single name: the query
  \<open>{type: 'post', search: 'Hi'}\<close> scans \<open>post:Hi:*\<close>, not \<open>post:*:*\<close> as the query \<open>'post'\<close>
  does, and on a store holding two posts it returns one of them.
\<close>

theorem get_object_search_counterexample:
  "\<not> (\<forall>details res w' tr.
         get Inr mem_srv details stocked_world = (res, w', tr)
         \<longrightarrow> scans tr
               = map (\<lambda>pattern. [''0'', ''MATCH'', pattern, ''COUNT'', ''10000''])
                   (query_patterns details))"
proof
  assume a: "\<forall>details res w' tr.
         get Inr mem_srv details stocked_world = (res, w', tr)
         \<longrightarrow> scans tr
               = map (\<lambda>pattern. [''0'', ''MATCH'', pattern, ''COUNT'', ''10000''])
                   (query_patterns details)"
  have run: "get Inr mem_srv filter_query stocked_world
               = (fst (get Inr mem_srv filter_query stocked_world),
                  fst (snd (get Inr mem_srv filter_query stocked_world)),
                  snd (snd (get Inr mem_srv filter_query stocked_world)))"
    by simp
  have s: "scans (snd (snd (get Inr mem_srv filter_query stocked_world)))
             = [[''0'', ''MATCH'', ''post:Hi:*'', ''COUNT'', ''10000'']]"
    by code_simp
  have q: "query_patterns filter_query = [''post:*:*'']"
    by code_simp
  from a run have
    "scans (snd (snd (get Inr mem_srv filter_query stocked_world)))
       = map (\<lambda>pattern. [''0'', ''MATCH'', pattern, ''COUNT'', ''10000''])
           (query_patterns filter_query)"
    by blast
  with s q show False by simp
qed

text \<open>
After a sync that stored two posts and an author, the query \<open>[post, author]\<close> returns a
  mapping with the keys \<open>post\<close> and \<open>author\<close>, holding two values and one.
\<close>

theorem get_groups_by_type_witness:
  "(\<forall>t. \<exists>vs. map Inr vs
                 = map (\<lambda>kr. (Inr (snd kr) :: exn + jsval))
                     (filter (\<lambda>kr. parseType (fst kr) = t)
                        (fetched (snd (snd (get Inr mem_srv library_query stocked_world)))))
              \<and> js_prop library_result t = (if vs = [] then JUndefined else JArr vs []))
   \<and> set (object_keys library_result)
       = (\<lambda>kr. parseType (fst kr))
           ` set (fetched (snd (snd (get Inr mem_srv library_query stocked_world))))
   \<and> object_keys library_result = [''post'', ''author'']
   \<and> map (\<lambda>t. length (elems (js_prop library_result t))) [''post'', ''author''] = [2, 1]
   \<and> map (\<lambda>t. length (filter (\<lambda>p. parseType (fst p) = t) (kv stocked_world)))
        [''post'', ''author''] = [2, 1]"
proof -
  have run: "get Inr mem_srv library_query stocked_world
               = (Inr library_result, fst (snd (get Inr mem_srv library_query stocked_world)),
                  snd (snd (get Inr mem_srv library_query stocked_world)))"
    unfolding library_get [symmetric] by simp
  have a: "object_keys library_result = [''post'', ''author'']" by code_simp
  have b: "map (\<lambda>t. length (elems (js_prop library_result t))) [''post'', ''author''] = [2, 1]"
    by code_simp
  have c: "map (\<lambda>t. length (filter (\<lambda>p. parseType (fst p) = t) (kv stocked_world)))
        [''post'', ''author''] = [2, 1]"
    by code_simp
  from get_groups_by_type [OF run] a b c show ?thesis by blast
qed

end
